theory Spec2Isabelle
  imports Main "HOL-Library.Word"
begin

unbundle bit_operations_syntax

section \<open>Constants of the Linux input interface\<close>

text \<open>
  \<^verbatim>\<open>keys.c\<close> includes \<^verbatim>\<open>linux/input.h\<close>, \<^verbatim>\<open>errno.h\<close> and \<^verbatim>\<open>poll.h\<close>.  The event type and
  key codes below are the values of the Linux user-space ABI
  (\<^verbatim>\<open>linux/input-event-codes.h\<close>); a raw code is a \<^verbatim>\<open>uint16_t\<close>.
\<close>

definition EV_KEY :: "16 word" where "EV_KEY = 0x01"

definition KEY_Q :: "16 word" where "KEY_Q = 16"
definition KEY_W :: "16 word" where "KEY_W = 17"
definition KEY_E :: "16 word" where "KEY_E = 18"
definition KEY_LEFTSHIFT :: "16 word" where "KEY_LEFTSHIFT = 42"
definition KEY_HOME :: "16 word" where "KEY_HOME = 102"
definition KEY_END :: "16 word" where "KEY_END = 107"
definition KEY_MUTE :: "16 word" where "KEY_MUTE = 113"
definition KEY_VOLUMEDOWN :: "16 word" where "KEY_VOLUMEDOWN = 114"
definition KEY_VOLUMEUP :: "16 word" where "KEY_VOLUMEUP = 115"
definition KEY_PAUSE :: "16 word" where "KEY_PAUSE = 119"
definition KEY_STOP :: "16 word" where "KEY_STOP = 128"
definition KEY_BACK :: "16 word" where "KEY_BACK = 158"
definition KEY_REWIND :: "16 word" where "KEY_REWIND = 168"
definition KEY_HOMEPAGE :: "16 word" where "KEY_HOMEPAGE = 172"
definition KEY_PLAY :: "16 word" where "KEY_PLAY = 207"
definition KEY_FASTFORWARD :: "16 word" where "KEY_FASTFORWARD = 208"
definition KEY_SEARCH :: "16 word" where "KEY_SEARCH = 217"
definition KEY_BRIGHTNESSDOWN :: "16 word" where "KEY_BRIGHTNESSDOWN = 224"
definition KEY_BRIGHTNESSUP :: "16 word" where "KEY_BRIGHTNESSUP = 225"
definition KEY_NEXT :: "16 word" where "KEY_NEXT = 0x197"
definition KEY_PREVIOUS :: "16 word" where "KEY_PREVIOUS = 0x19c"

section \<open>Types of the nyx interface\<close>

text \<open>
  The nyx headers are not part of the module.  \<^verbatim>\<open>nyx_key_type_t\<close> and the custom key
  names are enumerations; the numeric value the nyx library gives to each custom key
  name is a parameter \<open>ck\<close> of the model, and \<^verbatim>\<open>int key\<close> is an \<^typ>\<open>int\<close>.
\<close>

datatype nyx_key_type_t = NYX_KEY_TYPE_STANDARD | NYX_KEY_TYPE_CUSTOM

datatype nyx_keys_custom_key_t =
    NYX_KEYS_CUSTOM_KEY_HOME
  | NYX_KEYS_CUSTOM_KEY_HOT
  | NYX_KEYS_CUSTOM_KEY_BACK
  | NYX_KEYS_CUSTOM_KEY_VOL_UP
  | NYX_KEYS_CUSTOM_KEY_VOL_DOWN
  | NYX_KEYS_CUSTOM_KEY_POWER_ON
  | NYX_KEYS_CUSTOM_KEY_MEDIA_PLAY
  | NYX_KEYS_CUSTOM_KEY_MEDIA_PAUSE
  | NYX_KEYS_CUSTOM_KEY_MEDIA_STOP
  | NYX_KEYS_CUSTOM_KEY_MEDIA_NEXT
  | NYX_KEYS_CUSTOM_KEY_MEDIA_PREVIOUS
  | NYX_KEYS_CUSTOM_KEY_SEARCH
  | NYX_KEYS_CUSTOM_KEY_BRIGHTNESS_DOWN
  | NYX_KEYS_CUSTOM_KEY_BRIGHTNESS_UP
  | NYX_KEYS_CUSTOM_KEY_VOL_MUTE
  | NYX_KEYS_CUSTOM_KEY_MEDIA_REWIND
  | NYX_KEYS_CUSTOM_KEY_MEDIA_FASTFORWARD

datatype nyx_error_t =
    NYX_ERROR_NONE
  | NYX_ERROR_INVALID_HANDLE
  | NYX_ERROR_INVALID_VALUE
  | NYX_ERROR_OUT_OF_MEMORY

datatype nyx_event_type_t = NYX_EVENT_UNSET | NYX_EVENT_KEYS

type_synonym custom_ids = "nyx_keys_custom_key_t \<Rightarrow> int"

section \<open>lookup_key\<close>

text \<open>
  \<^verbatim>\<open>lookup_key(d, keyCode, keyValue, key_type_out_ptr)\<close>: the \<^verbatim>\<open>switch\<close> over the raw
  code, then the test of \<^verbatim>\<open>*key_type_out_ptr\<close>.  The cell behind \<^verbatim>\<open>key_type_out_ptr\<close> is
  read as well as written, so the model takes its value at entry and returns
  \<open>(key, *key_type_out_ptr)\<close>.  The device \<^verbatim>\<open>d\<close> is not used by the body.
\<close>

definition lookup_key ::
  "custom_ids \<Rightarrow> 16 word \<Rightarrow> 32 word \<Rightarrow> nyx_key_type_t \<Rightarrow> int \<times> nyx_key_type_t" where
  "lookup_key ck keyCode keyValue key_type_in =
    (let (key, key_type) =
       (if keyCode = KEY_Q then (ck NYX_KEYS_CUSTOM_KEY_HOME, NYX_KEY_TYPE_CUSTOM)
        else if keyCode = KEY_HOMEPAGE \<or> keyCode = KEY_W
          then (ck NYX_KEYS_CUSTOM_KEY_HOT, NYX_KEY_TYPE_CUSTOM)
        else if keyCode = KEY_BACK \<or> keyCode = KEY_E
          then (ck NYX_KEYS_CUSTOM_KEY_BACK, NYX_KEY_TYPE_CUSTOM)
        else if keyCode = KEY_HOME then (ck NYX_KEYS_CUSTOM_KEY_HOME, NYX_KEY_TYPE_CUSTOM)
        else if keyCode = KEY_VOLUMEUP then (ck NYX_KEYS_CUSTOM_KEY_VOL_UP, NYX_KEY_TYPE_CUSTOM)
        else if keyCode = KEY_VOLUMEDOWN
          then (ck NYX_KEYS_CUSTOM_KEY_VOL_DOWN, NYX_KEY_TYPE_CUSTOM)
        else if keyCode = KEY_END then (ck NYX_KEYS_CUSTOM_KEY_POWER_ON, NYX_KEY_TYPE_CUSTOM)
        else if keyCode = KEY_PLAY then (ck NYX_KEYS_CUSTOM_KEY_MEDIA_PLAY, NYX_KEY_TYPE_CUSTOM)
        else if keyCode = KEY_PAUSE
          then (ck NYX_KEYS_CUSTOM_KEY_MEDIA_PAUSE, NYX_KEY_TYPE_CUSTOM)
        else if keyCode = KEY_STOP then (ck NYX_KEYS_CUSTOM_KEY_MEDIA_STOP, NYX_KEY_TYPE_CUSTOM)
        else if keyCode = KEY_NEXT then (ck NYX_KEYS_CUSTOM_KEY_MEDIA_NEXT, NYX_KEY_TYPE_CUSTOM)
        else if keyCode = KEY_PREVIOUS
          then (ck NYX_KEYS_CUSTOM_KEY_MEDIA_PREVIOUS, NYX_KEY_TYPE_CUSTOM)
        else if keyCode = KEY_SEARCH then (ck NYX_KEYS_CUSTOM_KEY_SEARCH, NYX_KEY_TYPE_CUSTOM)
        else if keyCode = KEY_BRIGHTNESSDOWN
          then (ck NYX_KEYS_CUSTOM_KEY_BRIGHTNESS_DOWN, NYX_KEY_TYPE_CUSTOM)
        else if keyCode = KEY_BRIGHTNESSUP
          then (ck NYX_KEYS_CUSTOM_KEY_BRIGHTNESS_UP, NYX_KEY_TYPE_CUSTOM)
        else if keyCode = KEY_MUTE then (ck NYX_KEYS_CUSTOM_KEY_VOL_MUTE, NYX_KEY_TYPE_CUSTOM)
        else if keyCode = KEY_REWIND
          then (ck NYX_KEYS_CUSTOM_KEY_MEDIA_REWIND, NYX_KEY_TYPE_CUSTOM)
        else if keyCode = KEY_FASTFORWARD
          then (ck NYX_KEYS_CUSTOM_KEY_MEDIA_FASTFORWARD, NYX_KEY_TYPE_CUSTOM)
        else (0, key_type_in))
     in if key_type \<noteq> NYX_KEY_TYPE_CUSTOM
        then (if keyCode = KEY_LEFTSHIFT then (uint KEY_LEFTSHIFT, key_type)
              else (uint keyCode, key_type))
        else (key, key_type))"

text \<open>
  The fixed custom-key table as the specification words it: each raw code of the table
  with the custom key it stands for.
\<close>

definition custom_key_table :: "(16 word \<times> nyx_keys_custom_key_t) list" where
  "custom_key_table =
    [(KEY_Q, NYX_KEYS_CUSTOM_KEY_HOME),
     (KEY_HOME, NYX_KEYS_CUSTOM_KEY_HOME),
     (KEY_HOMEPAGE, NYX_KEYS_CUSTOM_KEY_HOT),
     (KEY_W, NYX_KEYS_CUSTOM_KEY_HOT),
     (KEY_BACK, NYX_KEYS_CUSTOM_KEY_BACK),
     (KEY_E, NYX_KEYS_CUSTOM_KEY_BACK),
     (KEY_VOLUMEUP, NYX_KEYS_CUSTOM_KEY_VOL_UP),
     (KEY_VOLUMEDOWN, NYX_KEYS_CUSTOM_KEY_VOL_DOWN),
     (KEY_END, NYX_KEYS_CUSTOM_KEY_POWER_ON),
     (KEY_PLAY, NYX_KEYS_CUSTOM_KEY_MEDIA_PLAY),
     (KEY_PAUSE, NYX_KEYS_CUSTOM_KEY_MEDIA_PAUSE),
     (KEY_STOP, NYX_KEYS_CUSTOM_KEY_MEDIA_STOP),
     (KEY_NEXT, NYX_KEYS_CUSTOM_KEY_MEDIA_NEXT),
     (KEY_PREVIOUS, NYX_KEYS_CUSTOM_KEY_MEDIA_PREVIOUS),
     (KEY_REWIND, NYX_KEYS_CUSTOM_KEY_MEDIA_REWIND),
     (KEY_FASTFORWARD, NYX_KEYS_CUSTOM_KEY_MEDIA_FASTFORWARD),
     (KEY_SEARCH, NYX_KEYS_CUSTOM_KEY_SEARCH),
     (KEY_BRIGHTNESSUP, NYX_KEYS_CUSTOM_KEY_BRIGHTNESS_UP),
     (KEY_BRIGHTNESSDOWN, NYX_KEYS_CUSTOM_KEY_BRIGHTNESS_DOWN),
     (KEY_MUTE, NYX_KEYS_CUSTOM_KEY_VOL_MUTE)]"

section \<open>Data of the module\<close>

text \<open>
  \<^verbatim>\<open>InputEvent_t\<close>: the time stamp, the 16-bit type and code, the signed 32-bit value
  (a \<^typ>\<open>32 word\<close>, read as signed with \<^const>\<open>sint\<close>).
\<close>

record timeval =
  tv_sec :: int
  tv_usec :: int

record InputEvent_t =
  ev_time :: timeval
  ev_type :: "16 word"
  ev_code :: "16 word"
  ev_value :: "32 word"

text \<open>
  \<^verbatim>\<open>nyx_event_keys_t\<close> with the fields the module writes: the \<^verbatim>\<open>type\<close> of its
  \<^verbatim>\<open>nyx_event_t\<close> parent and the four key fields.
\<close>

record nyx_event_keys_t =
  event_type :: nyx_event_type_t
  key_type :: nyx_key_type_t
  key :: int
  key_is_press :: bool
  key_is_auto_repeat :: bool

type_synonym addr = nat

text \<open>
  The memory the module works on: the device's \<^verbatim>\<open>current_event_ptr\<close> (\<open>None\<close> is
  \<^verbatim>\<open>NULL\<close>), the three statics of \<^verbatim>\<open>keys_get_event\<close>, and the heap of allocated events.
  An event is live while its address is in the domain of the heap.
\<close>

record keys_mem =
  current_event_ptr :: "addr option"
  raw_events :: "InputEvent_t list"
  event_count :: int
  event_iter :: int
  heap :: "addr \<rightharpoonup> nyx_event_keys_t"

definition MAX_EVENTS :: int where "MAX_EVENTS = 64"

section \<open>The environment\<close>

text \<open>
  What \<^verbatim>\<open>poll\<close>, \<^verbatim>\<open>read\<close> and \<^verbatim>\<open>calloc\<close> answer is not decided by the module.  The
  environment holds, for each of the three, the answer to the \<open>i\<close>-th call and the
  number of calls made so far.  A \<^verbatim>\<open>read\<close> answers with its return value \<open>rd\<close>, with
  \<^verbatim>\<open>errno\<close>, and with the records it stored at the start of the buffer.
\<close>

record poll_result =
  ret_val :: int
  revents :: "16 word"

record read_result =
  rd :: int
  read_errno :: int
  read_data :: "InputEvent_t list"

record env =
  poll_results :: "nat \<Rightarrow> poll_result"
  read_results :: "nat \<Rightarrow> read_result"
  calloc_results :: "nat \<Rightarrow> addr option"
  polls_done :: nat
  reads_done :: nat
  callocs_done :: nat

definition POLLIN :: "16 word" where "POLLIN = 0x0001"
definition EINTR :: int where "EINTR = 4"

text \<open>
  How a call may end: it returns, the \<^verbatim>\<open>assert\<close> fails and the process aborts, or it
  dereferences an invalid pointer or index.  A call that never ends is \<open>None\<close> of the
  enclosing option.
\<close>

datatype 'a outcome = Returns 'a | Aborts | Faults

section \<open>keys_event_create and keys_release_event\<close>

definition zeroed_event :: nyx_event_keys_t where
  "zeroed_event = \<lparr>event_type = NYX_EVENT_UNSET, key_type = NYX_KEY_TYPE_STANDARD, key = 0,
     key_is_press = False, key_is_auto_repeat = False\<rparr>"

text \<open>
  \<^verbatim>\<open>keys_event_create()\<close>: \<^verbatim>\<open>calloc\<close>, and on success the parent's type is set.
  The other fields are the zeros \<^verbatim>\<open>calloc\<close> leaves; the zero of the key type is
  taken to be \<^verbatim>\<open>NYX_KEY_TYPE_STANDARD\<close>.  Line 398 stores the key type before the
  event is handed out, so no returned event shows that value.
\<close>

definition keys_event_create :: "keys_mem \<Rightarrow> env \<Rightarrow> addr option \<times> keys_mem \<times> env" where
  "keys_event_create s w =
    (let event_ptr = calloc_results w (callocs_done w);
         w' = w\<lparr>callocs_done := callocs_done w + 1\<rparr>
     in case event_ptr of
          None \<Rightarrow> (None, s, w')
        | Some a \<Rightarrow>
            (Some a,
             s\<lparr>heap := (heap s)(a \<mapsto> zeroed_event\<lparr>event_type := NYX_EVENT_KEYS\<rparr>)\<rparr>, w'))"

text \<open>
  \<^verbatim>\<open>keys_release_event(d, e)\<close>: both handles are checked, then the event is freed.
\<close>

definition keys_release_event ::
  "addr option \<Rightarrow> addr option \<Rightarrow> keys_mem \<Rightarrow> nyx_error_t \<times> keys_mem" where
  "keys_release_event d e s =
    (case d of
       None \<Rightarrow> (NYX_ERROR_INVALID_HANDLE, s)
     | Some _ \<Rightarrow>
        (case e of
           None \<Rightarrow> (NYX_ERROR_INVALID_HANDLE, s)
         | Some a \<Rightarrow> (NYX_ERROR_NONE, s\<lparr>heap := (heap s)(a := None)\<rparr>)))"

section \<open>read_input_event\<close>

text \<open>
  What a \<^verbatim>\<open>read\<close> of \<open>rd > 0\<close> bytes leaves in the buffer: the whole records among the
  bytes replace the start of the buffer, the rest of the buffer stays.  When \<open>rd\<close> is
  not a multiple of the record size, the bytes after the last whole record land in the
  next slot; that slot lies past the count \<^verbatim>\<open>read_input_event\<close> returns, the scan
  never reaches it, and the model leaves it as it was.
\<close>

definition store_records :: "InputEvent_t list \<Rightarrow> InputEvent_t list \<Rightarrow> InputEvent_t list" where
  "store_records recs buf = take (length buf) (recs @ drop (length recs) buf)"

definition read_store :: "int \<Rightarrow> read_result \<Rightarrow> InputEvent_t list \<Rightarrow> InputEvent_t list" where
  "read_store sz r buf =
    (if 0 < rd r then store_records (take (nat (rd r div sz)) (read_data r)) buf else buf)"

text \<open>
  The \<^verbatim>\<open>for (;;)\<close> loop around \<^verbatim>\<open>read\<close>.  \<open>sz\<close> is \<^verbatim>\<open>sizeof(InputEvent_t)\<close>, which
  depends on the target's \<^verbatim>\<open>struct timeval\<close>.  The loop ends on \<open>rd > 0\<close> and on
  \<open>rd < 0\<close> with an \<^verbatim>\<open>errno\<close> other than \<^verbatim>\<open>EINTR\<close>; otherwise it reads again.
\<close>

partial_function (option) read_loop ::
  "int \<Rightarrow> int \<Rightarrow> InputEvent_t list \<Rightarrow> int \<Rightarrow> env \<Rightarrow> (int \<times> InputEvent_t list \<times> env) option" where
  "read_loop sz maxEvents pEvents numEvents w =
    (let r = read_results w (reads_done w);
         w' = w\<lparr>reads_done := reads_done w + 1\<rparr>;
         pEvents' = read_store sz r pEvents
     in if 0 < rd r then Some (numEvents + rd r div sz, pEvents', w')
        else if rd r < 0 \<and> read_errno r \<noteq> EINTR then Some (- 1, pEvents', w')
        else read_loop sz maxEvents pEvents' numEvents w')"

text \<open>
  \<^verbatim>\<open>read_input_event(pEvents, maxEvents)\<close>; \<open>pEvents = None\<close> is the \<^verbatim>\<open>NULL\<close> buffer.
\<close>

definition read_input_event ::
  "int \<Rightarrow> InputEvent_t list option \<Rightarrow> int \<Rightarrow> env \<Rightarrow>
     (int \<times> InputEvent_t list option \<times> env) option" where
  "read_input_event sz pEvents maxEvents w =
    (case pEvents of
       None \<Rightarrow> Some (- 1, None, w)
     | Some buf \<Rightarrow>
        (let p = poll_results w (polls_done w);
             w1 = w\<lparr>polls_done := polls_done w + 1\<rparr>
         in if ret_val p \<le> 0 then Some (0, Some buf, w1)
            else if revents p AND POLLIN \<noteq> 0
              then map_option (\<lambda>(n, b, w'). (n, Some b, w')) (read_loop sz maxEvents buf 0 w1)
            else Some (0, Some buf, w1)))"

section \<open>keys_get_event\<close>

text \<open>
  The \<^verbatim>\<open>for\<close> loop over the batch.  \<open>e\<close> is the value of the caller's \<^verbatim>\<open>*e\<close>.  The
  index into \<^verbatim>\<open>raw_events\<close> and the two pointers the body follows are checked, so that
  a read outside the array or through an invalid pointer is the outcome \<open>Faults\<close>.
  After \<^verbatim>\<open>*e = current_event_ptr\<close> the test \<^verbatim>\<open>NULL != *e\<close> holds, since the pointer was
  just written through, so the loop ends there.
\<close>

function keys_scan ::
  "custom_ids \<Rightarrow> keys_mem \<Rightarrow> addr option \<Rightarrow> (keys_mem \<times> addr option) outcome" where
  "keys_scan ck s e =
    (if event_iter s < event_count s then
       (if event_iter s < 0 \<or> int (length (raw_events s)) \<le> event_iter s then Faults
        else
          (let input_event = raw_events s ! nat (event_iter s);
               s1 = s\<lparr>event_iter := event_iter s + 1\<rparr>
           in if ev_type input_event = EV_KEY then
                (case current_event_ptr s1 of
                   None \<Rightarrow> Faults
                 | Some a \<Rightarrow>
                    (case heap s1 a of
                       None \<Rightarrow> Faults
                     | Some ev \<Rightarrow>
                        (let (k, kt) = lookup_key ck (ev_code input_event)
                                         (ev_value input_event) NYX_KEY_TYPE_STANDARD;
                             ev' = ev\<lparr>key_type := kt, key := k,
                                      key_is_press := (ev_value input_event \<noteq> 0),
                                      key_is_auto_repeat := (1 < sint (ev_value input_event))\<rparr>
                         in Returns (s1\<lparr>heap := (heap s1)(a \<mapsto> ev'),
                                        current_event_ptr := None\<rparr>, Some a))))
              else keys_scan ck s1 e))
     else Returns (s, e))"
  by pat_completeness auto
termination
  by (relation "measure (\<lambda>(ck, s, e). nat (event_count s - event_iter s))") auto

declare keys_scan.simps [simp del]

text \<open>Lines 375 to 379: the refill when the cursor is at 0.\<close>

definition keys_refill :: "int \<Rightarrow> keys_mem \<Rightarrow> env \<Rightarrow> (keys_mem \<times> env) option" where
  "keys_refill sz s w =
    (if event_iter s = 0 then
       map_option
         (\<lambda>(n, buf, w').
            (s\<lparr>event_count := n,
               raw_events := (case buf of Some b \<Rightarrow> b | None \<Rightarrow> raw_events s),
               current_event_ptr := None\<rparr>, w'))
         (read_input_event sz (Some (raw_events s)) MAX_EVENTS w)
     else Some (s, w))"

text \<open>Lines 381 to 388: an event is allocated when none is held; the assertion.\<close>

definition keys_hold_event :: "keys_mem \<Rightarrow> env \<Rightarrow> (keys_mem \<times> env) outcome" where
  "keys_hold_event s w =
    (if current_event_ptr s = None then
       (let (p, s', w') = keys_event_create s w;
            s'' = s'\<lparr>current_event_ptr := p\<rparr>
        in if current_event_ptr s'' = None then Aborts else Returns (s'', w'))
     else Returns (s, w))"

text \<open>
  \<^verbatim>\<open>keys_get_event(d, e)\<close>.  \<open>d = None\<close> is the \<^verbatim>\<open>NULL\<close> device, which the body
  dereferences without a check.  The result is the error code, the value of \<^verbatim>\<open>*e\<close> at
  the return, the memory and the environment.
\<close>

definition keys_get_event ::
  "custom_ids \<Rightarrow> int \<Rightarrow> addr option \<Rightarrow> addr option \<Rightarrow> keys_mem \<Rightarrow> env \<Rightarrow>
     (nyx_error_t \<times> addr option \<times> keys_mem \<times> env) outcome option" where
  "keys_get_event ck sz d e s w =
    (case d of
       None \<Rightarrow> Some Faults
     | Some _ \<Rightarrow>
        (case keys_refill sz s w of
           None \<Rightarrow> None
         | Some (s1, w1) \<Rightarrow>
            (case keys_hold_event s1 w1 of
               Aborts \<Rightarrow> Some Aborts
             | Faults \<Rightarrow> Some Faults
             | Returns (s2, w2) \<Rightarrow>
                (case keys_scan ck s2 e of
                   Aborts \<Rightarrow> Some Aborts
                 | Faults \<Rightarrow> Some Faults
                 | Returns (s3, e') \<Rightarrow>
                    Some (Returns (NYX_ERROR_NONE, e',
                      (if event_count s3 \<le> event_iter s3 then s3\<lparr>event_iter := 0\<rparr> else s3),
                      w2))))))"

declare read_loop.simps [code]

section \<open>Notions used to state the properties\<close>

text \<open>
  The record the cursor has just passed.  After a call that produced an event this is
  the record the event was made from: the cursor stands behind it, or was reset to 0
  because it was the last of the batch.
\<close>

definition last_record :: "keys_mem \<Rightarrow> InputEvent_t" where
  "last_record s =
    raw_events s ! nat ((if event_iter s = 0 then event_count s else event_iter s) - 1)"

text \<open>
  The event lines 398 to 411 make of a key record in a freshly created event.
\<close>

definition translate :: "custom_ids \<Rightarrow> InputEvent_t \<Rightarrow> nyx_event_keys_t" where
  "translate ck r =
    \<lparr>event_type = NYX_EVENT_KEYS,
     key_type = snd (lookup_key ck (ev_code r) (ev_value r) NYX_KEY_TYPE_STANDARD),
     key = fst (lookup_key ck (ev_code r) (ev_value r) NYX_KEY_TYPE_STANDARD),
     key_is_press = (ev_value r \<noteq> 0),
     key_is_auto_repeat = (1 < sint (ev_value r))\<rparr>"

text \<open>The four fields lines 398 to 411 write into the held event.\<close>

definition fill_event :: "custom_ids \<Rightarrow> InputEvent_t \<Rightarrow> nyx_event_keys_t \<Rightarrow> nyx_event_keys_t" where
  "fill_event ck r ev =
    ev\<lparr>key_type := snd (lookup_key ck (ev_code r) (ev_value r) NYX_KEY_TYPE_STANDARD),
       key := fst (lookup_key ck (ev_code r) (ev_value r) NYX_KEY_TYPE_STANDARD),
       key_is_press := (ev_value r \<noteq> 0),
       key_is_auto_repeat := (1 < sint (ev_value r))\<rparr>"

definition is_key :: "InputEvent_t \<Rightarrow> bool" where
  "is_key r = (ev_type r = EV_KEY)"

text \<open>
  The records of the batch from the cursor on, and those of them a later call will
  still visit: with the cursor at 0 the next call refills the buffer first.
\<close>

definition window :: "keys_mem \<Rightarrow> InputEvent_t list" where
  "window s = take (nat (event_count s - event_iter s)) (drop (nat (event_iter s)) (raw_events s))"

definition pending :: "keys_mem \<Rightarrow> InputEvent_t list" where
  "pending s = (if event_iter s = 0 then [] else window s)"

text \<open>
  The states between two calls: the buffer has its \<^verbatim>\<open>MAX_EVENTS\<close> entries, and a
  cursor that is not 0 is inside the batch, with no event held by the device.
\<close>

definition keys_inv :: "keys_mem \<Rightarrow> bool" where
  "keys_inv s =
    (int (length (raw_events s)) = MAX_EVENTS \<and>
     (event_iter s = 0 \<or>
      (0 < event_iter s \<and> event_iter s < event_count s \<and> event_count s \<le> MAX_EVENTS \<and>
       current_event_ptr s = None)))"

text \<open>
  Answers of \<^verbatim>\<open>read\<close>: one that ends the loop, one interrupted by a signal, and one
  that respects the size asked for and stores the whole records it counts.
\<close>

definition read_ends :: "read_result \<Rightarrow> bool" where
  "read_ends r = (0 < rd r \<or> (rd r < 0 \<and> read_errno r \<noteq> EINTR))"

definition read_interrupted :: "read_result \<Rightarrow> bool" where
  "read_interrupted r = (rd r < 0 \<and> read_errno r = EINTR)"

definition read_wf :: "int \<Rightarrow> int \<Rightarrow> read_result \<Rightarrow> bool" where
  "read_wf sz maxEvents r =
    (0 < rd r \<longrightarrow> rd r \<le> sz * maxEvents \<and> int (length (read_data r)) = rd r div sz)"

definition batch_of :: "int \<Rightarrow> read_result \<Rightarrow> InputEvent_t list" where
  "batch_of sz r = (if 0 < rd r then take (nat (rd r div sz)) (read_data r) else [])"

text \<open>The records delivered by the reads number \<open>i\<close> to \<open>j - 1\<close>, in order.\<close>

definition records_read :: "int \<Rightarrow> env \<Rightarrow> nat \<Rightarrow> nat \<Rightarrow> InputEvent_t list" where
  "records_read sz w i j = concat (map (\<lambda>n. batch_of sz (read_results w n)) [i..<j])"

definition env_ok :: "int \<Rightarrow> env \<Rightarrow> bool" where
  "env_ok sz w =
    ((\<forall>i. calloc_results w i \<noteq> None) \<and>
     (\<forall>i. read_wf sz MAX_EVENTS (read_results w i)) \<and>
     (\<forall>i. \<exists>j\<ge>i. read_ends (read_results w j)))"

text \<open>
  A caller: one call of \<^verbatim>\<open>keys_get_event\<close> for each element of the list, each with
  \<^verbatim>\<open>*e\<close> set to \<^verbatim>\<open>NULL\<close> before.  The caller copies a returned event and, where
  the element is \<open>True\<close>, releases it before the next call.  The result is the trace
  of the calls: for each call, in order, the event it returned if any, and the memory
  and the environment it left.
\<close>

fun keys_run ::
  "custom_ids \<Rightarrow> int \<Rightarrow> bool list \<Rightarrow> keys_mem \<Rightarrow> env \<Rightarrow>
     ((nyx_event_keys_t option \<times> keys_mem \<times> env) list \<times> keys_mem \<times> env) outcome option" where
  "keys_run ck sz [] s w = Some (Returns ([], s, w))"
| "keys_run ck sz (release # rest) s w =
    (case keys_get_event ck sz (Some 0) None s w of
       None \<Rightarrow> None
     | Some Aborts \<Rightarrow> Some Aborts
     | Some Faults \<Rightarrow> Some Faults
     | Some (Returns (r, e, s1, w1)) \<Rightarrow>
        (let got = (case e of None \<Rightarrow> None | Some a \<Rightarrow> heap s1 a);
             s2 = (if release \<and> e \<noteq> None then snd (keys_release_event (Some 0) e s1) else s1)
         in case keys_run ck sz rest s2 w1 of
              None \<Rightarrow> None
            | Some Aborts \<Rightarrow> Some Aborts
            | Some Faults \<Rightarrow> Some Faults
            | Some (Returns (tr, s3, w3)) \<Rightarrow> Some (Returns ((got, s1, w1) # tr, s3, w3))))"

text \<open>The events of a trace, in the order of the calls that returned them.\<close>

definition events_of ::
  "(nyx_event_keys_t option \<times> keys_mem \<times> env) list \<Rightarrow> nyx_event_keys_t list" where
  "events_of tr = List.map_filter fst tr"

text \<open>
  The iterator as the specification describes it (section 4.3), as a predicate on a
  trace that starts in memory \<open>s\<close> and environment \<open>w\<close>.  Each call refills when
  and only when no record of the batch is left to inspect: it then polls once, and if
  the poll reports input it reads up to and including the first read that ends the
  loop; otherwise it neither polls nor reads.  Of the records then at hand, those left
  over followed by those just read, it passes over the records that are not key
  records: with none left it returns no event and nothing stays pending; otherwise it
  returns the event of the first key record, and the records after that one stay
  pending for the next call.
\<close>

fun fifo_trace ::
  "custom_ids \<Rightarrow> int \<Rightarrow> keys_mem \<Rightarrow> env \<Rightarrow>
     (nyx_event_keys_t option \<times> keys_mem \<times> env) list \<Rightarrow> bool" where
  "fifo_trace ck sz s w [] = True"
| "fifo_trace ck sz s w ((out, s', w') # tr) =
    (polls_done w' = polls_done w + (if pending s = [] then 1 else 0) \<and>
     (if pending s = [] \<and> 0 < ret_val (poll_results w (polls_done w)) \<and>
         revents (poll_results w (polls_done w)) AND POLLIN \<noteq> 0
      then reads_done w < reads_done w' \<and>
        read_ends (read_results w (reads_done w' - 1)) \<and>
        list_all (\<lambda>j. \<not> read_ends (read_results w j)) [reads_done w..<reads_done w' - 1]
      else reads_done w' = reads_done w) \<and>
     (case dropWhile (\<lambda>r. \<not> is_key r)
             (pending s @ records_read sz w (reads_done w) (reads_done w')) of
        [] \<Rightarrow> out = None \<and> pending s' = []
      | r # rest \<Rightarrow> out = Some (translate ck r) \<and> pending s' = rest) \<and>
     fifo_trace ck sz s' w' tr)"

section \<open>Concrete inputs\<close>

fun script :: "'a \<Rightarrow> 'a list \<Rightarrow> nat \<Rightarrow> 'a" where
  "script d [] i = d"
| "script d (x # xs) 0 = x"
| "script d (x # xs) (Suc i) = script d xs i"

definition key_record :: "16 word \<Rightarrow> 32 word \<Rightarrow> InputEvent_t" where
  "key_record c v =
    \<lparr>ev_time = \<lparr>tv_sec = 0, tv_usec = 0\<rparr>, ev_type = EV_KEY, ev_code = c, ev_value = v\<rparr>"

definition other_record :: InputEvent_t where
  "other_record =
    \<lparr>ev_time = \<lparr>tv_sec = 0, tv_usec = 0\<rparr>, ev_type = 0, ev_code = 0, ev_value = 0\<rparr>"

text \<open>
  The memory after \<^verbatim>\<open>nyx_module_open\<close>: the device is zeroed by \<^verbatim>\<open>calloc\<close> and the
  statics of \<^verbatim>\<open>keys_get_event\<close> have their initial values.
\<close>

definition initial_mem :: keys_mem where
  "initial_mem =
    \<lparr>current_event_ptr = None, raw_events = replicate (nat MAX_EVENTS) other_record,
     event_count = 0, event_iter = 0, heap = Map.empty\<rparr>"

definition ready :: poll_result where "ready = \<lparr>ret_val = 1, revents = POLLIN\<rparr>"
definition not_ready :: poll_result where "not_ready = \<lparr>ret_val = 0, revents = 0\<rparr>"

definition read_records :: "int \<Rightarrow> InputEvent_t list \<Rightarrow> read_result" where
  "read_records sz recs = \<lparr>rd = sz * int (length recs), read_errno = 0, read_data = recs\<rparr>"

definition read_fails :: "int \<Rightarrow> read_result" where
  "read_fails en = \<lparr>rd = - 1, read_errno = en, read_data = []\<rparr>"

definition read_nothing :: read_result where
  "read_nothing = \<lparr>rd = 0, read_errno = 0, read_data = []\<rparr>"

definition EIO :: int where "EIO = 5"

text \<open>
  An environment from finite lists of answers; past the lists the source is not ready,
  a read fails with \<^verbatim>\<open>EIO\<close>, and \<^verbatim>\<open>calloc\<close> answers with the given default.
\<close>

definition scripted_env ::
  "poll_result list \<Rightarrow> read_result list \<Rightarrow> addr option list \<Rightarrow> addr option \<Rightarrow> env" where
  "scripted_env ps rs cs c =
    \<lparr>poll_results = script not_ready ps, read_results = script (read_fails EIO) rs,
     calloc_results = script c cs, polls_done = 0, reads_done = 0, callocs_done = 0\<rparr>"

definition sample_ids :: custom_ids where
  "sample_ids k =
    (case k of NYX_KEYS_CUSTOM_KEY_HOME \<Rightarrow> 1001 | NYX_KEYS_CUSTOM_KEY_VOL_UP \<Rightarrow> 1002
     | _ \<Rightarrow> 1000)"

definition env_not_ready :: env where
  "env_not_ready = scripted_env [not_ready] [] [] None"

definition env_interrupted :: env where
  "env_interrupted =
    scripted_env [ready] [read_fails EINTR, read_records 16 [key_record KEY_VOLUMEUP 1]]
      [Some 1] None"

definition env_read_error :: env where
  "env_read_error = scripted_env [ready] [read_fails EIO] [Some 1] None"

definition env_press_release :: env where
  "env_press_release =
    scripted_env [ready]
      [read_records 16 [key_record KEY_VOLUMEUP 1, key_record KEY_VOLUMEUP 0]]
      [Some 1, Some 2] None"

definition env_repeat :: env where
  "env_repeat = scripted_env [ready] [read_records 16 [key_record KEY_HOME 3]] [Some 1] None"

definition mem_repeat :: keys_mem where
  "mem_repeat =
    \<lparr>current_event_ptr = None,
     raw_events = key_record KEY_HOME 3 # replicate 63 other_record,
     event_count = 1, event_iter = 0,
     heap = [1 \<mapsto> translate sample_ids (key_record KEY_HOME 3)]\<rparr>"

definition env_negative :: env where
  "env_negative = scripted_env [ready] [read_records 16 [key_record KEY_Q (- 1)]] [Some 1] None"

definition mem_negative :: keys_mem where
  "mem_negative =
    \<lparr>current_event_ptr = None,
     raw_events = key_record KEY_Q (- 1) # replicate 63 other_record,
     event_count = 1, event_iter = 0,
     heap = [1 \<mapsto> translate sample_ids (key_record KEY_Q (- 1))]\<rparr>"

definition env_no_memory :: env where
  "env_no_memory = scripted_env [ready] [read_records 16 [key_record KEY_VOLUMEUP 1]] [] None"

definition env_press :: env where
  "env_press = env_press_release\<lparr>polls_done := 1, reads_done := 1, callocs_done := 1\<rparr>"

definition mem_press :: keys_mem where
  "mem_press =
    \<lparr>current_event_ptr = None,
     raw_events = key_record KEY_VOLUMEUP 1 # key_record KEY_VOLUMEUP 0 #
       replicate 62 other_record,
     event_count = 2, event_iter = 1,
     heap = [1 \<mapsto> translate sample_ids (key_record KEY_VOLUMEUP 1)]\<rparr>"

definition mem_release :: keys_mem where
  "mem_release =
    \<lparr>current_event_ptr = None,
     raw_events = key_record KEY_VOLUMEUP 1 # key_record KEY_VOLUMEUP 0 #
       replicate 62 other_record,
     event_count = 2, event_iter = 0,
     heap = [1 \<mapsto> translate sample_ids (key_record KEY_VOLUMEUP 1),
             2 \<mapsto> translate sample_ids (key_record KEY_VOLUMEUP 0)]\<rparr>"

definition mem_read_error :: keys_mem where
  "mem_read_error =
    \<lparr>current_event_ptr = Some 1, raw_events = replicate 64 other_record,
     event_count = - 1, event_iter = 0,
     heap = [1 \<mapsto> zeroed_event\<lparr>event_type := NYX_EVENT_KEYS\<rparr>]\<rparr>"

definition env_skip :: env where
  "env_skip =
    scripted_env [ready] [read_records 16 [other_record, key_record 30 1]] [Some 1] None"

definition mem_skip :: keys_mem where
  "mem_skip =
    \<lparr>current_event_ptr = None,
     raw_events = other_record # key_record 30 1 # replicate 62 other_record,
     event_count = 2, event_iter = 0,
     heap = [1 \<mapsto> translate sample_ids (key_record 30 1)]\<rparr>"

definition mem_interrupted :: keys_mem where
  "mem_interrupted =
    \<lparr>current_event_ptr = None,
     raw_events = key_record KEY_VOLUMEUP 1 # replicate 63 other_record,
     event_count = 1, event_iter = 0,
     heap = [1 \<mapsto> translate sample_ids (key_record KEY_VOLUMEUP 1)]\<rparr>"

definition env_fifo :: env where
  "env_fifo =
    scripted_env [ready, ready]
      [read_records 16 [other_record, key_record 30 1], read_records 16 [key_record 30 0]]
      [Some 1, Some 2] (Some 3)"

definition mem_fifo2 :: keys_mem where
  "mem_fifo2 =
    \<lparr>current_event_ptr = None,
     raw_events = key_record 30 0 # key_record 30 1 # replicate 62 other_record,
     event_count = 1, event_iter = 0,
     heap = [1 \<mapsto> translate sample_ids (key_record 30 1),
             2 \<mapsto> translate sample_ids (key_record 30 0)]\<rparr>"

definition mem_fifo3 :: keys_mem where
  "mem_fifo3 =
    \<lparr>current_event_ptr = Some 3,
     raw_events = key_record 30 0 # key_record 30 1 # replicate 62 other_record,
     event_count = 0, event_iter = 0,
     heap = [1 \<mapsto> translate sample_ids (key_record 30 1),
             2 \<mapsto> translate sample_ids (key_record 30 0),
             3 \<mapsto> zeroed_event\<lparr>event_type := NYX_EVENT_KEYS\<rparr>]\<rparr>"

definition mem_fifo1 :: keys_mem where
  "mem_fifo1 =
    \<lparr>current_event_ptr = None,
     raw_events = other_record # key_record 30 1 # replicate 62 other_record,
     event_count = 2, event_iter = 0,
     heap = [1 \<mapsto> translate sample_ids (key_record 30 1)]\<rparr>"

definition env_fifo_after :: "nat \<Rightarrow> nat \<Rightarrow> nat \<Rightarrow> env" where
  "env_fifo_after p r c = env_fifo\<lparr>polls_done := p, reads_done := r, callocs_done := c\<rparr>"

definition trace_fifo :: "(nyx_event_keys_t option \<times> keys_mem \<times> env) list" where
  "trace_fifo =
    [(Some (translate sample_ids (key_record 30 1)), mem_fifo1, env_fifo_after 1 1 1),
     (Some (translate sample_ids (key_record 30 0)), mem_fifo2, env_fifo_after 2 2 2),
     (None, mem_fifo3, env_fifo_after 3 2 3)]"

lemmas key_code_defs =
  KEY_Q_def KEY_W_def KEY_E_def KEY_LEFTSHIFT_def KEY_HOME_def KEY_END_def KEY_MUTE_def
  KEY_VOLUMEDOWN_def KEY_VOLUMEUP_def KEY_PAUSE_def KEY_STOP_def KEY_BACK_def KEY_REWIND_def
  KEY_HOMEPAGE_def KEY_PLAY_def KEY_FASTFORWARD_def KEY_SEARCH_def KEY_BRIGHTNESSDOWN_def
  KEY_BRIGHTNESSUP_def KEY_NEXT_def KEY_PREVIOUS_def

section \<open>Properties of lookup_key\<close>

lemma lookup_key_custom:
  "map_of custom_key_table c = Some k \<Longrightarrow>
     lookup_key ck c v NYX_KEY_TYPE_STANDARD = (ck k, NYX_KEY_TYPE_CUSTOM)"
  unfolding custom_key_table_def lookup_key_def key_code_defs
  by (simp split: if_splits)

lemma lookup_key_standard:
  "map_of custom_key_table c = None \<Longrightarrow>
     lookup_key ck c v NYX_KEY_TYPE_STANDARD = (uint c, NYX_KEY_TYPE_STANDARD)"
  unfolding custom_key_table_def lookup_key_def key_code_defs
  by (simp split: if_splits)

lemma lookup_key_shift:
  "lookup_key ck KEY_LEFTSHIFT v NYX_KEY_TYPE_STANDARD = (uint KEY_LEFTSHIFT, NYX_KEY_TYPE_STANDARD)"
  unfolding lookup_key_def key_code_defs by simp

text \<open>
  The result depends on the key type found at entry only for a code outside the
  table: had the cell held Custom, the code would come back as identifier 0 of class
  Custom.  \<^verbatim>\<open>keys_get_event\<close>, the only caller, stores Standard there first.
\<close>

lemma lookup_key_custom_at_entry:
  "map_of custom_key_table c = None \<Longrightarrow>
     lookup_key ck c v NYX_KEY_TYPE_CUSTOM = (0, NYX_KEY_TYPE_CUSTOM)"
  unfolding custom_key_table_def lookup_key_def key_code_defs
  by (simp split: if_splits)

lemma shift_not_custom: "map_of custom_key_table KEY_LEFTSHIFT = None"
  unfolding custom_key_table_def key_code_defs by simp

text \<open>
  C1.  With the key type set to Standard before the call, as \<^verbatim>\<open>keys_get_event\<close> does,
  \<^verbatim>\<open>lookup_key\<close> gives every raw code of the custom-key table the custom identifier of
  the table and the class Custom, and gives every other code the class Standard with
  the code itself as identifier; the shift code \<^verbatim>\<open>KEY_LEFTSHIFT\<close> is not in the table
  and comes back as Standard with its own code.
\<close>

theorem lookup_key_classifies:
  "(\<forall>k. map_of custom_key_table c = Some k \<longrightarrow>
        lookup_key ck c v NYX_KEY_TYPE_STANDARD = (ck k, NYX_KEY_TYPE_CUSTOM)) \<and>
   (map_of custom_key_table c = None \<and> c \<noteq> KEY_LEFTSHIFT \<longrightarrow>
        lookup_key ck c v NYX_KEY_TYPE_STANDARD = (uint c, NYX_KEY_TYPE_STANDARD)) \<and>
   map_of custom_key_table KEY_LEFTSHIFT = None \<and>
   lookup_key ck KEY_LEFTSHIFT v NYX_KEY_TYPE_STANDARD =
     (uint KEY_LEFTSHIFT, NYX_KEY_TYPE_STANDARD)"
  using lookup_key_custom [of c _ ck v] lookup_key_standard [of c ck v]
    lookup_key_shift [of ck v] shift_not_custom
  by blast

theorem lookup_key_classifies_witness:
  "map_of custom_key_table KEY_VOLUMEUP = Some NYX_KEYS_CUSTOM_KEY_VOL_UP \<and>
   lookup_key sample_ids KEY_VOLUMEUP 1 NYX_KEY_TYPE_STANDARD = (1002, NYX_KEY_TYPE_CUSTOM) \<and>
   map_of custom_key_table 30 = None \<and> 30 \<noteq> KEY_LEFTSHIFT \<and>
   lookup_key sample_ids 30 1 NYX_KEY_TYPE_STANDARD = (30, NYX_KEY_TYPE_STANDARD)"
proof -
  have a: "map_of custom_key_table KEY_VOLUMEUP = Some NYX_KEYS_CUSTOM_KEY_VOL_UP"
    unfolding custom_key_table_def key_code_defs by simp
  have b: "map_of custom_key_table 30 = None" "30 \<noteq> KEY_LEFTSHIFT"
    unfolding custom_key_table_def key_code_defs by simp_all
  show ?thesis
    using a b lookup_key_classifies [of KEY_VOLUMEUP sample_ids 1]
      lookup_key_classifies [of 30 sample_ids 1]
    by (simp add: sample_ids_def)
qed

section \<open>The read loop\<close>

lemma read_loop_ends_now:
  "read_ends (read_results w (reads_done w)) \<Longrightarrow>
   read_loop sz m buf n w =
     Some (if 0 < rd (read_results w (reads_done w))
           then n + rd (read_results w (reads_done w)) div sz else - 1,
           read_store sz (read_results w (reads_done w)) buf,
           w\<lparr>reads_done := reads_done w + 1\<rparr>)"
  by (subst read_loop.simps) (auto simp: read_ends_def Let_def)

lemma read_loop_again:
  "\<not> read_ends (read_results w (reads_done w)) \<Longrightarrow>
   read_loop sz m buf n w = read_loop sz m buf n (w\<lparr>reads_done := reads_done w + 1\<rparr>)"
  by (subst read_loop.simps) (auto simp: read_ends_def Let_def read_store_def)

lemma read_loop_after:
  "\<forall>i<k. \<not> read_ends (read_results w (reads_done w + i)) \<Longrightarrow>
   read_ends (read_results w (reads_done w + k)) \<Longrightarrow>
   read_loop sz m buf n w =
     Some (if 0 < rd (read_results w (reads_done w + k))
           then n + rd (read_results w (reads_done w + k)) div sz else - 1,
           read_store sz (read_results w (reads_done w + k)) buf,
           w\<lparr>reads_done := reads_done w + k + 1\<rparr>)"
proof (induction k arbitrary: w)
  case 0
  then show ?case using read_loop_ends_now [of w sz m buf n] by simp
next
  case (Suc k)
  let ?w = "w\<lparr>reads_done := reads_done w + 1\<rparr>"
  from Suc.prems(1) have first: "\<not> read_ends (read_results w (reads_done w))"
    by (metis add.right_neutral zero_less_Suc)
  have rest: "\<forall>i<k. \<not> read_ends (read_results ?w (reads_done ?w + i))"
    using Suc.prems(1) by auto
  have last: "read_ends (read_results ?w (reads_done ?w + k))"
    using Suc.prems(2) by simp
  show ?case
    using Suc.IH [OF rest last] read_loop_again [OF first, of sz m buf n] by simp
qed

lemma read_loop_some_ends:
  assumes "read_loop sz m buf n w = Some y"
  shows "\<exists>i. read_ends (read_results w i)"
proof (rule read_loop.raw_induct
    [where P = "\<lambda>sz m buf n w y. \<exists>i. read_ends (read_results w i)", OF _ assms])
  fix f :: "int \<Rightarrow> int \<Rightarrow> InputEvent_t list \<Rightarrow> int \<Rightarrow> env \<Rightarrow> (int \<times> InputEvent_t list \<times> env) option"
  fix sz maxEvents pEvents numEvents w y
  assume later: "\<And>sz m buf n w y. f sz m buf n w = Some y \<Longrightarrow> \<exists>i. read_ends (read_results w i)"
  assume step: "(let r = read_results w (reads_done w);
          w' = w\<lparr>reads_done := reads_done w + 1\<rparr>;
          pEvents' = read_store sz r pEvents
      in if 0 < rd r then Some (numEvents + rd r div sz, pEvents', w')
         else if rd r < 0 \<and> read_errno r \<noteq> EINTR then Some (- 1, pEvents', w')
         else f sz maxEvents pEvents' numEvents w') = Some y"
  show "\<exists>i. read_ends (read_results w i)"
  proof (cases "read_ends (read_results w (reads_done w))")
    case True
    then show ?thesis by blast
  next
    case False
    with step have "f sz maxEvents (read_store sz (read_results w (reads_done w)) pEvents)
        numEvents (w\<lparr>reads_done := reads_done w + 1\<rparr>) = Some y"
      by (auto simp: read_ends_def Let_def split: if_splits)
    from later [OF this] show ?thesis by simp
  qed
qed

lemma read_loop_never:
  "\<forall>i. \<not> read_ends (read_results w i) \<Longrightarrow> read_loop sz m buf n w = None"
  using read_loop_some_ends [of sz m buf n w] by (cases "read_loop sz m buf n w") auto

section \<open>Poll and read\<close>

lemma read_input_event_not_ready:
  "ret_val (poll_results w (polls_done w)) \<le> 0 \<Longrightarrow>
   read_input_event sz (Some buf) m w = Some (0, Some buf, w\<lparr>polls_done := polls_done w + 1\<rparr>)"
  by (simp add: read_input_event_def Let_def)

lemma read_input_event_no_pollin:
  "revents (poll_results w (polls_done w)) AND POLLIN = 0 \<Longrightarrow>
   read_input_event sz (Some buf) m w = Some (0, Some buf, w\<lparr>polls_done := polls_done w + 1\<rparr>)"
  by (simp add: read_input_event_def Let_def)

lemma read_input_event_reads:
  "0 < ret_val (poll_results w (polls_done w)) \<Longrightarrow>
   revents (poll_results w (polls_done w)) AND POLLIN \<noteq> 0 \<Longrightarrow>
   read_input_event sz (Some buf) m w =
     map_option (\<lambda>(n, b, w'). (n, Some b, w'))
       (read_loop sz m buf 0 (w\<lparr>polls_done := polls_done w + 1\<rparr>))"
  by (simp add: read_input_event_def Let_def)

section \<open>The scan of the batch\<close>

lemma keys_scan_done:
  "event_count s \<le> event_iter s \<Longrightarrow> keys_scan ck s e = Returns (s, e)"
  by (subst keys_scan.simps) simp

lemma keys_scan_skip:
  "event_iter s < event_count s \<Longrightarrow> 0 \<le> event_iter s \<Longrightarrow>
   event_iter s < int (length (raw_events s)) \<Longrightarrow>
   ev_type (raw_events s ! nat (event_iter s)) \<noteq> EV_KEY \<Longrightarrow>
   keys_scan ck s e = keys_scan ck (s\<lparr>event_iter := event_iter s + 1\<rparr>) e"
  by (subst keys_scan.simps) (simp add: Let_def)

lemma keys_scan_key:
  "event_iter s < event_count s \<Longrightarrow> 0 \<le> event_iter s \<Longrightarrow>
   event_iter s < int (length (raw_events s)) \<Longrightarrow>
   ev_type (raw_events s ! nat (event_iter s)) = EV_KEY \<Longrightarrow>
   current_event_ptr s = Some a \<Longrightarrow> heap s a = Some ev \<Longrightarrow>
   keys_scan ck s e =
     Returns (s\<lparr>event_iter := event_iter s + 1,
                heap := (heap s)(a \<mapsto> fill_event ck (raw_events s ! nat (event_iter s)) ev),
                current_event_ptr := None\<rparr>, Some a)"
  by (subst keys_scan.simps) (simp add: Let_def fill_event_def split: prod.splits)

lemma window_empty: "event_count s \<le> event_iter s \<Longrightarrow> window s = []"
  by (simp add: window_def)

lemma window_Cons:
  assumes "0 \<le> event_iter s" "event_iter s < event_count s"
    "event_count s \<le> int (length (raw_events s))"
  shows "window s = raw_events s ! nat (event_iter s) # window (s\<lparr>event_iter := event_iter s + 1\<rparr>)"
proof -
  have n: "nat (event_count s - event_iter s) = Suc (nat (event_count s - (event_iter s + 1)))"
    using assms by simp
  have i: "nat (event_iter s + 1) = Suc (nat (event_iter s))"
    using assms by simp
  have "nat (event_iter s) < length (raw_events s)" using assms by simp
  then have "drop (nat (event_iter s)) (raw_events s) =
      raw_events s ! nat (event_iter s) # drop (Suc (nat (event_iter s))) (raw_events s)"
    by (simp add: Cons_nth_drop_Suc)
  then show ?thesis by (simp add: window_def n i)
qed

lemma length_window:
  "0 \<le> event_iter s \<Longrightarrow> event_count s \<le> int (length (raw_events s)) \<Longrightarrow>
   length (window s) = nat (event_count s - event_iter s)"
  by (auto simp: window_def)

lemma keys_scan_window:
  "0 \<le> event_iter s \<Longrightarrow> event_count s \<le> int (length (raw_events s)) \<Longrightarrow>
   current_event_ptr s = Some a \<Longrightarrow> heap s a = Some ev \<Longrightarrow>
   keys_scan ck s e =
     (case dropWhile (\<lambda>r. \<not> is_key r) (window s) of
        [] \<Rightarrow> Returns (s\<lparr>event_iter := max (event_iter s) (event_count s)\<rparr>, e)
      | r # rest \<Rightarrow>
          Returns (s\<lparr>event_iter := event_count s - int (length rest),
                     heap := (heap s)(a \<mapsto> fill_event ck r ev),
                     current_event_ptr := None\<rparr>, Some a))"
proof (induction ck s e rule: keys_scan.induct)
  case (1 ck s e)
  show ?case
  proof (cases "event_iter s < event_count s")
    case False
    then show ?thesis by (simp add: keys_scan_done window_empty max_def)
  next
    case True
    let ?s1 = "s\<lparr>event_iter := event_iter s + 1\<rparr>"
    have inb: "event_iter s < int (length (raw_events s))" using True "1.prems" by simp
    have w: "window s = raw_events s ! nat (event_iter s) # window ?s1"
      using window_Cons True "1.prems" by simp
    have len: "length (window ?s1) = nat (event_count s - (event_iter s + 1))"
      using length_window [of ?s1] "1.prems" by simp
    show ?thesis
    proof (cases "ev_type (raw_events s ! nat (event_iter s)) = EV_KEY")
      case key: True
      show ?thesis
        using keys_scan_key [OF True "1.prems"(1) inb key "1.prems"(3,4), of ck e] True key
        by (simp add: w is_key_def len)
    next
      case other: False
      have ih: "keys_scan ck ?s1 e =
        (case dropWhile (\<lambda>r. \<not> is_key r) (window ?s1) of
           [] \<Rightarrow> Returns (?s1\<lparr>event_iter := max (event_iter ?s1) (event_count ?s1)\<rparr>, e)
         | r # rest \<Rightarrow>
             Returns (?s1\<lparr>event_iter := event_count ?s1 - int (length rest),
                        heap := (heap ?s1)(a \<mapsto> fill_event ck r ev),
                        current_event_ptr := None\<rparr>, Some a))"
        using "1.IH" [of "raw_events s ! nat (event_iter s)" ?s1] True inb other "1.prems"
        by simp
      have m: "max (event_iter s + 1) (event_count s) = max (event_iter s) (event_count s)"
        using True by simp
      have dw: "dropWhile (\<lambda>r. \<not> is_key r) (window s) =
          dropWhile (\<lambda>r. \<not> is_key r) (window ?s1)"
        using w other by (simp add: is_key_def)
      have sk: "keys_scan ck s e = keys_scan ck ?s1 e"
        using keys_scan_skip [OF True "1.prems"(1) inb other] .
      show ?thesis
      proof (cases "dropWhile (\<lambda>r. \<not> is_key r) (window ?s1)")
        case Nil
        have "keys_scan ck s e =
            Returns (s\<lparr>event_iter := max (event_iter s) (event_count s)\<rparr>, e)"
          using ih sk unfolding Nil by (simp add: m)
        then show ?thesis unfolding dw Nil by simp
      next
        case (Cons r rest)
        have "keys_scan ck s e =
            Returns (s\<lparr>event_iter := event_count s - int (length rest),
                       heap := (heap s)(a \<mapsto> fill_event ck r ev),
                       current_event_ptr := None\<rparr>, Some a)"
          using ih sk unfolding Cons by simp
        then show ?thesis unfolding dw Cons by simp
      qed
    qed
  qed
qed

lemmas env_defs = scripted_env_def ready_def not_ready_def read_records_def read_fails_def
  read_nothing_def EIO_def EINTR_def POLLIN_def

section \<open>Holding an event\<close>

lemma env_reads_polls:
  "w\<lparr>reads_done := a, polls_done := b\<rparr> = w\<lparr>polls_done := b, reads_done := a\<rparr>"
  by (cases w) simp

lemma keys_hold_event_alloc:
  "current_event_ptr s = None \<Longrightarrow> calloc_results w (callocs_done w) = Some a \<Longrightarrow>
   keys_hold_event s w =
     Returns (s\<lparr>heap := (heap s)(a \<mapsto> zeroed_event\<lparr>event_type := NYX_EVENT_KEYS\<rparr>),
                current_event_ptr := Some a\<rparr>,
              w\<lparr>callocs_done := callocs_done w + 1\<rparr>)"
  by (simp add: keys_hold_event_def keys_event_create_def Let_def)

lemma keys_hold_event_no_memory:
  "current_event_ptr s = None \<Longrightarrow> calloc_results w (callocs_done w) = None \<Longrightarrow>
   keys_hold_event s w = Aborts"
  by (simp add: keys_hold_event_def keys_event_create_def Let_def)

lemma keys_hold_event_held:
  "current_event_ptr s = Some a \<Longrightarrow> keys_hold_event s w = Returns (s, w)"
  by (simp add: keys_hold_event_def)

lemma keys_get_event_read_failure:
  assumes "event_iter s = 0"
    and "0 < ret_val (poll_results w (polls_done w))"
    and "revents (poll_results w (polls_done w)) AND POLLIN \<noteq> 0"
    and "rd (read_results w (reads_done w)) < 0"
    and "read_errno (read_results w (reads_done w)) \<noteq> EINTR"
    and "calloc_results w (callocs_done w) = Some a"
  shows "keys_get_event ck sz (Some d) e s w =
    Some (Returns (NYX_ERROR_NONE, e,
      s\<lparr>current_event_ptr := Some a, event_count := - 1,
        heap := (heap s)(a \<mapsto> zeroed_event\<lparr>event_type := NYX_EVENT_KEYS\<rparr>)\<rparr>,
      w\<lparr>polls_done := polls_done w + 1, reads_done := reads_done w + 1,
        callocs_done := callocs_done w + 1\<rparr>))"
proof -
  let ?w1 = "w\<lparr>polls_done := polls_done w + 1\<rparr>"
  have e: "read_ends (read_results ?w1 (reads_done ?w1))"
    using assms by (simp add: read_ends_def)
  have "read_input_event sz (Some (raw_events s)) MAX_EVENTS w =
      Some (- 1, Some (raw_events s), ?w1\<lparr>reads_done := reads_done w + 1\<rparr>)"
    using assms read_loop_ends_now [OF e, of sz MAX_EVENTS "raw_events s" 0]
    by (simp add: read_input_event_reads read_store_def)
  then have r: "keys_refill sz s w =
      Some (s\<lparr>event_count := - 1, current_event_ptr := None\<rparr>,
            ?w1\<lparr>reads_done := reads_done w + 1\<rparr>)"
    using assms(1) by (simp add: keys_refill_def)
  show ?thesis
    using assms(1,6)
    by (simp add: keys_get_event_def r keys_hold_event_alloc keys_scan_done)
qed

text \<open>
  C5.  \<^verbatim>\<open>read_input_event\<close> returns count 0, without reading, when the poll reports
  the source not ready.  With the source ready: a read interrupted by \<^verbatim>\<open>EINTR\<close> is
  retried and leaves no trace in the result, which is that of the call without the
  interrupted read; a negative read result with another \<^verbatim>\<open>errno\<close> is returned as the
  failure \<open>-1\<close>, and \<^verbatim>\<open>keys_get_event\<close> then returns without an event; a read of
  \<open>rd > 0\<close> bytes gives the count \<open>rd div sz\<close> and the records stored in the buffer.
\<close>

theorem read_input_event_results:
  "(ret_val (poll_results w (polls_done w)) \<le> 0 \<longrightarrow>
      read_input_event sz (Some buf) m w =
        Some (0, Some buf, w\<lparr>polls_done := polls_done w + 1\<rparr>)) \<and>
   (0 < ret_val (poll_results w (polls_done w)) \<and>
    revents (poll_results w (polls_done w)) AND POLLIN \<noteq> 0 \<longrightarrow>
      (read_interrupted (read_results w (reads_done w)) \<longrightarrow>
         read_input_event sz (Some buf) m w =
           read_input_event sz (Some buf) m (w\<lparr>reads_done := reads_done w + 1\<rparr>)) \<and>
      (rd (read_results w (reads_done w)) < 0 \<and>
       read_errno (read_results w (reads_done w)) \<noteq> EINTR \<longrightarrow>
         read_input_event sz (Some buf) m w =
           Some (- 1, Some buf,
             w\<lparr>polls_done := polls_done w + 1, reads_done := reads_done w + 1\<rparr>) \<and>
         (event_iter s = 0 \<and> calloc_results w (callocs_done w) \<noteq> None \<longrightarrow>
            (\<exists>s' w'. keys_get_event ck sz (Some d) e s w =
               Some (Returns (NYX_ERROR_NONE, e, s', w'))))) \<and>
      (0 < rd (read_results w (reads_done w)) \<longrightarrow>
         read_input_event sz (Some buf) m w =
           Some (rd (read_results w (reads_done w)) div sz,
             Some (store_records
               (take (nat (rd (read_results w (reads_done w)) div sz))
                  (read_data (read_results w (reads_done w)))) buf),
             w\<lparr>polls_done := polls_done w + 1, reads_done := reads_done w + 1\<rparr>)))"
proof -
  let ?w1 = "w\<lparr>polls_done := polls_done w + 1\<rparr>"
  let ?r = "read_results w (reads_done w)"
  have intr: "read_input_event sz (Some buf) m w =
      read_input_event sz (Some buf) m (w\<lparr>reads_done := reads_done w + 1\<rparr>)"
    if "0 < ret_val (poll_results w (polls_done w))"
      "revents (poll_results w (polls_done w)) AND POLLIN \<noteq> 0" "read_interrupted ?r"
  proof -
    have "\<not> read_ends (read_results ?w1 (reads_done ?w1))"
      using that(3) by (simp add: read_ends_def read_interrupted_def)
    from read_loop_again [OF this, of sz m buf 0] show ?thesis
      using that(1,2) by (simp add: read_input_event_reads env_reads_polls)
  qed
  have err: "read_input_event sz (Some buf) m w =
      Some (- 1, Some buf, w\<lparr>polls_done := polls_done w + 1, reads_done := reads_done w + 1\<rparr>)"
    if "0 < ret_val (poll_results w (polls_done w))"
      "revents (poll_results w (polls_done w)) AND POLLIN \<noteq> 0"
      "rd ?r < 0" "read_errno ?r \<noteq> EINTR"
  proof -
    have "read_ends (read_results ?w1 (reads_done ?w1))"
      using that(3,4) by (simp add: read_ends_def)
    from read_loop_ends_now [OF this, of sz m buf 0] show ?thesis
      using that by (simp add: read_input_event_reads read_store_def)
  qed
  have data: "read_input_event sz (Some buf) m w =
      Some (rd ?r div sz,
        Some (store_records (take (nat (rd ?r div sz)) (read_data ?r)) buf),
        w\<lparr>polls_done := polls_done w + 1, reads_done := reads_done w + 1\<rparr>)"
    if "0 < ret_val (poll_results w (polls_done w))"
      "revents (poll_results w (polls_done w)) AND POLLIN \<noteq> 0" "0 < rd ?r"
  proof -
    have "read_ends (read_results ?w1 (reads_done ?w1))"
      using that(3) by (simp add: read_ends_def)
    from read_loop_ends_now [OF this, of sz m buf 0] show ?thesis
      using that by (simp add: read_input_event_reads read_store_def)
  qed
  have none: "\<exists>s' w'. keys_get_event ck sz (Some d) e s w =
       Some (Returns (NYX_ERROR_NONE, e, s', w'))"
    if "0 < ret_val (poll_results w (polls_done w))"
      "revents (poll_results w (polls_done w)) AND POLLIN \<noteq> 0"
      "rd ?r < 0" "read_errno ?r \<noteq> EINTR" "event_iter s = 0"
      "calloc_results w (callocs_done w) \<noteq> None"
  proof -
    from that(6) obtain a where "calloc_results w (callocs_done w) = Some a" by blast
    from keys_get_event_read_failure [OF that(5) that(1-4) this] show ?thesis by blast
  qed
  show ?thesis
    using read_input_event_not_ready [of w sz buf m] intr err data none by blast
qed


theorem read_input_event_results_witness:
  "ret_val (poll_results env_not_ready (polls_done env_not_ready)) \<le> 0 \<and>
   read_input_event 16 (Some [other_record]) 64 env_not_ready =
     Some (0, Some [other_record], env_not_ready\<lparr>polls_done := 1\<rparr>) \<and>
   0 < ret_val (poll_results env_interrupted (polls_done env_interrupted)) \<and>
   revents (poll_results env_interrupted (polls_done env_interrupted)) AND POLLIN \<noteq> 0 \<and>
   read_interrupted (read_results env_interrupted (reads_done env_interrupted)) \<and>
   read_input_event 16 (Some [other_record]) 64 env_interrupted =
     read_input_event 16 (Some [other_record]) 64 (env_interrupted\<lparr>reads_done := 1\<rparr>) \<and>
   rd (read_results env_read_error (reads_done env_read_error)) < 0 \<and>
   read_errno (read_results env_read_error (reads_done env_read_error)) \<noteq> EINTR \<and>
   read_input_event 16 (Some [other_record]) 64 env_read_error =
     Some (- 1, Some [other_record], env_read_error\<lparr>polls_done := 1, reads_done := 1\<rparr>) \<and>
   event_iter initial_mem = 0 \<and>
   calloc_results env_read_error (callocs_done env_read_error) \<noteq> None \<and>
   (\<exists>s' w'. keys_get_event sample_ids 16 (Some 0) None initial_mem env_read_error =
      Some (Returns (NYX_ERROR_NONE, None, s', w'))) \<and>
   0 < rd (read_results env_press_release (reads_done env_press_release)) \<and>
   read_input_event 16 (Some [other_record, other_record, other_record]) 64 env_press_release =
     Some (2, Some [key_record KEY_VOLUMEUP 1, key_record KEY_VOLUMEUP 0, other_record],
       env_press_release\<lparr>polls_done := 1, reads_done := 1\<rparr>)"
  using read_input_event_results [of env_not_ready 16 "[other_record]" 64]
    read_input_event_results [of env_interrupted 16 "[other_record]" 64]
    read_input_event_results [of env_read_error 16 "[other_record]" 64 initial_mem
      sample_ids 0 None]
    read_input_event_results
      [of env_press_release 16 "[other_record, other_record, other_record]" 64]
  by (simp add: env_not_ready_def env_interrupted_def env_read_error_def
      env_press_release_def env_defs read_interrupted_def initial_mem_def store_records_def)

section \<open>What a returning call has done\<close>

lemma keys_scan_returns:
  "keys_scan ck s e = Returns (s', e') \<Longrightarrow>
   (e' = e \<and> s' = s\<lparr>event_iter := max (event_iter s) (event_count s)\<rparr> \<and>
    (\<forall>j. event_iter s \<le> j \<and> j < event_count s \<longrightarrow>
         ev_type (raw_events s ! nat j) \<noteq> EV_KEY)) \<or>
   (\<exists>i a ev. event_iter s \<le> i \<and> 0 \<le> i \<and> i < event_count s \<and>
      i < int (length (raw_events s)) \<and>
      ev_type (raw_events s ! nat i) = EV_KEY \<and>
      (\<forall>j. event_iter s \<le> j \<and> j < i \<longrightarrow> ev_type (raw_events s ! nat j) \<noteq> EV_KEY) \<and>
      current_event_ptr s = Some a \<and> heap s a = Some ev \<and> e' = Some a \<and>
      s' = s\<lparr>event_iter := i + 1,
             heap := (heap s)(a \<mapsto> fill_event ck (raw_events s ! nat i) ev),
             current_event_ptr := None\<rparr>)"
proof (induction ck s e arbitrary: s' e' rule: keys_scan.induct)
  case (1 ck s e)
  show ?case
  proof (cases "event_iter s < event_count s")
    case False
    with "1.prems" have same: "e' = e" "s' = s" by (simp_all add: keys_scan_done)
    have "s\<lparr>event_iter := max (event_iter s) (event_count s)\<rparr> = s"
      using False by (simp add: max_def)
    with same False show ?thesis by (intro disjI1) auto
  next
    case True
    let ?s1 = "s\<lparr>event_iter := event_iter s + 1\<rparr>"
    let ?r = "raw_events s ! nat (event_iter s)"
    from "1.prems" True have inb: "0 \<le> event_iter s" "event_iter s < int (length (raw_events s))"
      by (subst (asm) keys_scan.simps, simp split: if_splits)+
    show ?thesis
    proof (cases "ev_type ?r = EV_KEY")
      case key: True
      from "1.prems" True inb key obtain a ev where
        held: "current_event_ptr s = Some a" "heap s a = Some ev"
        by (subst (asm) keys_scan.simps) (auto simp: Let_def split: option.splits)
      from keys_scan_key [OF True inb key held, of ck e] "1.prems"
      have "e' = Some a" "s' = s\<lparr>event_iter := event_iter s + 1,
             heap := (heap s)(a \<mapsto> fill_event ck ?r ev), current_event_ptr := None\<rparr>"
        by simp_all
      with True inb key held show ?thesis
        by (intro disjI2 exI [of _ "event_iter s"] exI [of _ a] exI [of _ ev] conjI)
          (assumption | force | simp | simp add: fun_upd_def)+
    next
      case other: False
      have sk: "keys_scan ck ?s1 e = Returns (s', e')"
        using keys_scan_skip [OF True inb other, of ck e] "1.prems" by simp
      from "1.IH" [OF True _ refl refl other sk] inb
      consider
        (none) "e' = e" "s' = ?s1\<lparr>event_iter := max (event_iter ?s1) (event_count ?s1)\<rparr>"
          "\<forall>j. event_iter ?s1 \<le> j \<and> j < event_count ?s1 \<longrightarrow>
             ev_type (raw_events ?s1 ! nat j) \<noteq> EV_KEY"
      | (some) i a ev where "event_iter ?s1 \<le> i" "0 \<le> i" "i < event_count ?s1"
          "i < int (length (raw_events ?s1))" "ev_type (raw_events ?s1 ! nat i) = EV_KEY"
          "\<forall>j. event_iter ?s1 \<le> j \<and> j < i \<longrightarrow> ev_type (raw_events ?s1 ! nat j) \<noteq> EV_KEY"
          "current_event_ptr ?s1 = Some a" "heap ?s1 a = Some ev" "e' = Some a"
          "s' = ?s1\<lparr>event_iter := i + 1,
             heap := (heap ?s1)(a \<mapsto> fill_event ck (raw_events ?s1 ! nat i) ev),
             current_event_ptr := None\<rparr>"
        by fastforce
      then show ?thesis
      proof cases
        case none
        have all: "\<forall>j. event_iter s \<le> j \<and> j < event_count s \<longrightarrow>
            ev_type (raw_events s ! nat j) \<noteq> EV_KEY"
        proof (intro allI impI)
          fix j assume j: "event_iter s \<le> j \<and> j < event_count s"
          show "ev_type (raw_events s ! nat j) \<noteq> EV_KEY"
          proof (cases "j = event_iter s")
            case True with other show ?thesis by simp
          next
            case False with j none(3) show ?thesis by simp
          qed
        qed
        have "max (event_iter s + 1) (event_count s) = max (event_iter s) (event_count s)"
          using True by simp
        with none all show ?thesis by (intro disjI1 conjI) (assumption | force | simp | simp add: fun_upd_def)+
      next
        case some
        have all: "\<forall>j. event_iter s \<le> j \<and> j < i \<longrightarrow> ev_type (raw_events s ! nat j) \<noteq> EV_KEY"
        proof (intro allI impI)
          fix j assume j: "event_iter s \<le> j \<and> j < i"
          show "ev_type (raw_events s ! nat j) \<noteq> EV_KEY"
          proof (cases "j = event_iter s")
            case True with other show ?thesis by simp
          next
            case False with j some(6) show ?thesis by simp
          qed
        qed
        have "event_iter s \<le> i" using some(1) by simp
        with some all show ?thesis
          by (intro disjI2 exI [of _ i] exI [of _ a] exI [of _ ev] conjI)
            (assumption | force | simp | simp add: fun_upd_def)+
      qed
    qed
  qed
qed

lemma keys_get_event_returns:
  assumes "keys_get_event ck sz d e s w = Some (Returns (r, e', s', w'))"
  shows "\<exists>dv s1 w1 s2 s3. d = Some dv \<and> r = NYX_ERROR_NONE \<and>
     keys_refill sz s w = Some (s1, w1) \<and> keys_hold_event s1 w1 = Returns (s2, w') \<and>
     keys_scan ck s2 e = Returns (s3, e') \<and>
     s' = (if event_count s3 \<le> event_iter s3 then s3\<lparr>event_iter := 0\<rparr> else s3)"
  using assms unfolding keys_get_event_def
  by (auto split: option.splits outcome.splits prod.splits)


lemma keys_get_event_result:
  assumes "keys_refill sz s w = Some (s1, w1)" "keys_hold_event s1 w1 = Returns (s2, w2)"
    "0 \<le> event_iter s2" "event_count s2 \<le> int (length (raw_events s2))"
    "current_event_ptr s2 = Some a" "heap s2 a = Some ev"
  shows "keys_get_event ck sz (Some d) e s w =
    Some (case dropWhile (\<lambda>r. \<not> is_key r) (window s2) of
        [] \<Rightarrow> Returns (NYX_ERROR_NONE, e, s2\<lparr>event_iter := 0\<rparr>, w2)
      | r # rest \<Rightarrow>
          Returns (NYX_ERROR_NONE, Some a,
            s2\<lparr>event_iter := (if rest = [] then 0 else event_count s2 - int (length rest)),
               heap := (heap s2)(a \<mapsto> fill_event ck r ev),
               current_event_ptr := None\<rparr>, w2))"
proof (cases "dropWhile (\<lambda>r. \<not> is_key r) (window s2)")
  case Nil
  have "keys_scan ck s2 e =
      Returns (s2\<lparr>event_iter := max (event_iter s2) (event_count s2)\<rparr>, e)"
    using keys_scan_window [OF assms(3-6), of ck e] unfolding Nil by simp
  then show ?thesis
    unfolding Nil using assms(1,2) by (simp add: keys_get_event_def)
next
  case (Cons r rest)
  have "keys_scan ck s2 e =
      Returns (s2\<lparr>event_iter := event_count s2 - int (length rest),
                 heap := (heap s2)(a \<mapsto> fill_event ck r ev),
                 current_event_ptr := None\<rparr>, Some a)"
    using keys_scan_window [OF assms(3-6), of ck e] unfolding Cons by simp
  then show ?thesis
    unfolding Cons using assms(1,2) by (simp add: keys_get_event_def)
qed

lemma keys_get_event_event:
  assumes "keys_get_event ck sz d None s w = Some (Returns (r, Some a, s', w'))"
  shows "\<exists>ev0. heap s' a = Some (fill_event ck (last_record s') ev0) \<and>
    ev_type (last_record s') = EV_KEY \<and> current_event_ptr s' = None"
proof -
  from keys_get_event_returns [OF assms] obtain s2 s3 where
    scan: "keys_scan ck s2 None = Returns (s3, Some a)" and
    s': "s' = (if event_count s3 \<le> event_iter s3 then s3\<lparr>event_iter := 0\<rparr> else s3)"
    by blast
  from keys_scan_returns [OF scan] obtain i ev where
    i: "0 \<le> i" "i < event_count s2" "ev_type (raw_events s2 ! nat i) = EV_KEY" and
    s3: "s3 = s2\<lparr>event_iter := i + 1,
             heap := (heap s2)(a \<mapsto> fill_event ck (raw_events s2 ! nat i) ev),
             current_event_ptr := None\<rparr>"
    by auto
  have "last_record s' = raw_events s2 ! nat i"
  proof (cases "event_count s2 \<le> i + 1")
    case True
    with i have "event_count s2 = i + 1" by simp
    then show ?thesis using s' s3 by (simp add: last_record_def)
  next
    case False
    then show ?thesis using s' s3 i by (simp add: last_record_def)
  qed
  moreover have "heap s' a = Some (fill_event ck (raw_events s2 ! nat i) ev)"
    "current_event_ptr s' = None"
    using s' s3 by auto
  ultimately show ?thesis using i(3) by auto
qed

lemma sint_flags:
  fixes v :: "32 word"
  shows "1 < sint v \<Longrightarrow> v \<noteq> 0" "sint v < 0 \<Longrightarrow> v \<noteq> 0" "sint (1 :: 32 word) = 1"
  by auto

text \<open>
  C3.  When a call of \<^verbatim>\<open>keys_get_event\<close>, entered with \<^verbatim>\<open>*e\<close> null, returns an
  event, the event was made from a key record, its press flag is \<open>value \<noteq> 0\<close> and
  its auto-repeat flag is \<open>value > 1\<close> (signed): value 0 gives neither flag, value 1
  gives press only, a value above 1 gives both, and auto-repeat implies press.
\<close>

theorem keys_get_event_flags:
  assumes "keys_get_event ck sz d None s w = Some (Returns (r, Some a, s', w'))"
  shows "\<exists>ev. heap s' a = Some ev \<and> ev_type (last_record s') = EV_KEY \<and>
     key_is_press ev = (ev_value (last_record s') \<noteq> 0) \<and>
     key_is_auto_repeat ev = (1 < sint (ev_value (last_record s'))) \<and>
     (ev_value (last_record s') = 0 \<longrightarrow> \<not> key_is_press ev \<and> \<not> key_is_auto_repeat ev) \<and>
     (ev_value (last_record s') = 1 \<longrightarrow> key_is_press ev \<and> \<not> key_is_auto_repeat ev) \<and>
     (1 < sint (ev_value (last_record s')) \<longrightarrow> key_is_press ev \<and> key_is_auto_repeat ev) \<and>
     (key_is_auto_repeat ev \<longrightarrow> key_is_press ev)"
proof -
  from keys_get_event_event [OF assms] obtain ev0 where
    "heap s' a = Some (fill_event ck (last_record s') ev0)"
    "ev_type (last_record s') = EV_KEY"
    by blast
  then show ?thesis
    using sint_flags(1) [of "ev_value (last_record s')"]
    by (auto simp: fill_event_def)
qed

text \<open>
  C10.  A key record with a negative value produces an event with the press flag set
  and the auto-repeat flag clear.
\<close>

theorem keys_get_event_negative_value:
  assumes "keys_get_event ck sz d None s w = Some (Returns (r, Some a, s', w'))"
    and "sint (ev_value (last_record s')) < 0"
  shows "\<exists>ev. heap s' a = Some ev \<and> key_is_press ev \<and> \<not> key_is_auto_repeat ev"
proof -
  from keys_get_event_event [OF assms(1)] obtain ev0 where
    "heap s' a = Some (fill_event ck (last_record s') ev0)"
    by blast
  then show ?thesis
    using sint_flags(2) [OF assms(2)] assms(2)
    by (auto simp: fill_event_def)
qed


lemmas run_defs = keys_get_event_def keys_refill_def read_input_event_def read_loop.simps
  keys_hold_event_def keys_event_create_def keys_scan.simps read_store_def store_records_def
  Let_def initial_mem_def MAX_EVENTS_def zeroed_event_def translate_def key_record_def
  other_record_def EV_KEY_def case_prod_unfold

lemma run_repeat:
  "keys_get_event sample_ids 16 (Some 0) None initial_mem env_repeat =
     Some (Returns (NYX_ERROR_NONE, Some 1, mem_repeat,
       env_repeat\<lparr>polls_done := 1, reads_done := 1, callocs_done := 1\<rparr>))"
  by (simp add: run_defs env_defs env_repeat_def mem_repeat_def)

theorem keys_get_event_flags_witness:
  "keys_get_event sample_ids 16 (Some 0) None initial_mem env_repeat =
     Some (Returns (NYX_ERROR_NONE, Some 1, mem_repeat,
       env_repeat\<lparr>polls_done := 1, reads_done := 1, callocs_done := 1\<rparr>)) \<and>
   last_record mem_repeat = key_record KEY_HOME 3 \<and>
   (\<exists>ev. heap mem_repeat 1 = Some ev \<and> key_is_press ev \<and> key_is_auto_repeat ev)"
  using keys_get_event_flags [OF run_repeat] run_repeat
  by (auto simp: last_record_def mem_repeat_def key_record_def)


lemma run_negative:
  "keys_get_event sample_ids 16 (Some 0) None initial_mem env_negative =
     Some (Returns (NYX_ERROR_NONE, Some 1, mem_negative,
       env_negative\<lparr>polls_done := 1, reads_done := 1, callocs_done := 1\<rparr>))"
  by (simp add: run_defs env_defs env_negative_def mem_negative_def)

theorem keys_get_event_negative_value_witness:
  "keys_get_event sample_ids 16 (Some 0) None initial_mem env_negative =
     Some (Returns (NYX_ERROR_NONE, Some 1, mem_negative,
       env_negative\<lparr>polls_done := 1, reads_done := 1, callocs_done := 1\<rparr>)) \<and>
   sint (ev_value (last_record mem_negative)) < 0 \<and>
   (\<exists>ev. heap mem_negative 1 = Some ev \<and> key_is_press ev \<and> \<not> key_is_auto_repeat ev)"
proof -
  have neg: "sint (ev_value (last_record mem_negative)) < 0"
    by (simp add: last_record_def mem_negative_def key_record_def)
  from keys_get_event_negative_value [OF run_negative neg] run_negative neg
  show ?thesis by simp
qed

section \<open>What the refill leaves unchanged\<close>

lemma read_loop_env:
  assumes "read_loop sz m buf n w = Some y"
  shows "snd (snd y) = w\<lparr>reads_done := reads_done (snd (snd y))\<rparr> \<and>
    reads_done w < reads_done (snd (snd y))"
proof (rule read_loop.raw_induct
    [where P = "\<lambda>sz m buf n w y. snd (snd y) = w\<lparr>reads_done := reads_done (snd (snd y))\<rparr> \<and>
        reads_done w < reads_done (snd (snd y))", OF _ assms])
  fix f :: "int \<Rightarrow> int \<Rightarrow> InputEvent_t list \<Rightarrow> int \<Rightarrow> env \<Rightarrow> (int \<times> InputEvent_t list \<times> env) option"
  fix sz maxEvents pEvents numEvents w y
  assume later: "\<And>sz m buf n w y. f sz m buf n w = Some y \<Longrightarrow>
    snd (snd y) = w\<lparr>reads_done := reads_done (snd (snd y))\<rparr> \<and>
    reads_done w < reads_done (snd (snd y))"
  assume step: "(let r = read_results w (reads_done w);
          w' = w\<lparr>reads_done := reads_done w + 1\<rparr>;
          pEvents' = read_store sz r pEvents
      in if 0 < rd r then Some (numEvents + rd r div sz, pEvents', w')
         else if rd r < 0 \<and> read_errno r \<noteq> EINTR then Some (- 1, pEvents', w')
         else f sz maxEvents pEvents' numEvents w') = Some y"
  show "snd (snd y) = w\<lparr>reads_done := reads_done (snd (snd y))\<rparr> \<and>
    reads_done w < reads_done (snd (snd y))"
  proof (cases "read_ends (read_results w (reads_done w))")
    case True
    with step show ?thesis by (auto simp: read_ends_def Let_def split: if_splits)
  next
    case False
    with step have "f sz maxEvents (read_store sz (read_results w (reads_done w)) pEvents)
        numEvents (w\<lparr>reads_done := reads_done w + 1\<rparr>) = Some y"
      by (auto simp: read_ends_def Let_def split: if_splits)
    from later [OF this] show ?thesis by (cases w) auto
  qed
qed

lemma read_input_event_env:
  assumes "read_input_event sz (Some buf) m w = Some (n, b, w')"
  shows "w' = w\<lparr>polls_done := polls_done w + 1, reads_done := reads_done w'\<rparr> \<and>
    reads_done w \<le> reads_done w'"
proof (cases "0 < ret_val (poll_results w (polls_done w)) \<and>
    revents (poll_results w (polls_done w)) AND POLLIN \<noteq> 0")
  case True
  with assms obtain y where
    y: "read_loop sz m buf 0 (w\<lparr>polls_done := polls_done w + 1\<rparr>) = Some y" and
    w': "w' = snd (snd y)"
    by (auto simp: read_input_event_reads)
  from read_loop_env [OF y] w' show ?thesis by (cases w) auto
next
  case False
  with assms show ?thesis
    by (cases w) (auto simp: read_input_event_def Let_def split: if_splits)
qed

lemma keys_refill_keeps:
  assumes "keys_refill sz s w = Some (s1, w1)"
  shows "poll_results w1 = poll_results w \<and> read_results w1 = read_results w \<and>
    calloc_results w1 = calloc_results w \<and> callocs_done w1 = callocs_done w \<and>
    polls_done w1 = polls_done w + (if event_iter s = 0 then 1 else 0) \<and>
    reads_done w \<le> reads_done w1 \<and>
    heap s1 = heap s \<and> event_iter s1 = event_iter s \<and>
    current_event_ptr s1 = (if event_iter s = 0 then None else current_event_ptr s)"
proof (cases "event_iter s = 0")
  case False
  with assms show ?thesis by (simp add: keys_refill_def)
next
  case True
  with assms obtain n b w' where
    r: "read_input_event sz (Some (raw_events s)) MAX_EVENTS w = Some (n, b, w')" and
    s1: "s1 = s\<lparr>event_count := n,
             raw_events := (case b of Some b \<Rightarrow> b | None \<Rightarrow> raw_events s),
             current_event_ptr := None\<rparr>" and w1: "w1 = w'"
    by (auto simp: keys_refill_def)
  from read_input_event_env [OF r] have
    "w' = w\<lparr>polls_done := polls_done w + 1, reads_done := reads_done w'\<rparr>"
    "reads_done w \<le> reads_done w'" by simp_all
  then have "poll_results w' = poll_results w" "read_results w' = read_results w"
    "calloc_results w' = calloc_results w" "callocs_done w' = callocs_done w"
    "polls_done w' = polls_done w + 1" "reads_done w \<le> reads_done w'"
    by (cases w, cases w', simp)+
  with True s1 w1 show ?thesis by simp
qed


section \<open>Allocation\<close>

lemma keys_get_event_aborts:
  assumes "keys_refill sz s w = Some (s1, w1)"
    and "event_iter s = 0 \<or> current_event_ptr s = None"
    and "calloc_results w (callocs_done w) = None"
  shows "fst (keys_event_create s1 w1) = None"
    and "keys_get_event ck sz (Some d) e s w = Some Aborts"
proof -
  from keys_refill_keeps [OF assms(1)] assms(2,3) have
    empty: "current_event_ptr s1 = None" and no: "calloc_results w1 (callocs_done w1) = None"
    by auto
  from no show "fst (keys_event_create s1 w1) = None"
    by (simp add: keys_event_create_def Let_def)
  from keys_hold_event_no_memory [OF empty no] assms(1)
  show "keys_get_event ck sz (Some d) e s w = Some Aborts"
    by (simp add: keys_get_event_def)
qed

text \<open>
  C8 as the code has it.  When \<^verbatim>\<open>keys_get_event\<close> attempts the allocation, which it
  does when the device holds no event after the refill step, and \<^verbatim>\<open>calloc\<close> returns
  null, then \<^verbatim>\<open>keys_event_create\<close> returns null and the assertion ends the call: the
  process aborts and no error result reaches the caller.
\<close>

theorem keys_get_event_alloc_failure:
  assumes "keys_refill sz s w \<noteq> None"
    and "event_iter s = 0 \<or> current_event_ptr s = None"
    and "calloc_results w (callocs_done w) = None"
  shows "(\<forall>s1 w1. keys_refill sz s w = Some (s1, w1) \<longrightarrow> fst (keys_event_create s1 w1) = None) \<and>
    keys_get_event ck sz (Some d) e s w = Some Aborts"
proof -
  from assms(1) obtain s1 w1 where "keys_refill sz s w = Some (s1, w1)" by auto
  from keys_get_event_aborts [OF this assms(2,3)] keys_get_event_aborts(1) [OF _ assms(2,3)]
  show ?thesis by blast
qed

theorem keys_get_event_alloc_failure_witness:
  "keys_refill 16 initial_mem env_no_memory \<noteq> None \<and>
   (event_iter initial_mem = 0 \<or> current_event_ptr initial_mem = None) \<and>
   calloc_results env_no_memory (callocs_done env_no_memory) = None \<and>
   keys_get_event sample_ids 16 (Some 0) None initial_mem env_no_memory = Some Aborts"
proof -
  have a: "keys_refill 16 initial_mem env_no_memory \<noteq> None"
    by (simp add: run_defs env_defs env_no_memory_def)
  have b: "event_iter initial_mem = 0 \<or> current_event_ptr initial_mem = None"
    by (simp add: initial_mem_def)
  have c: "calloc_results env_no_memory (callocs_done env_no_memory) = None"
    by (simp add: env_defs env_no_memory_def)
  from keys_get_event_alloc_failure [OF a b c, of sample_ids 0 None] a b c
  show ?thesis by simp
qed

text \<open>
  C8 as stated fails: with a key record ready and \<^verbatim>\<open>calloc\<close> returning null, the call
  aborts instead of returning an error.
\<close>

theorem keys_get_event_alloc_failure_counterexample:
  "keys_get_event sample_ids 16 (Some 0) None initial_mem
     (scripted_env [ready] [read_records 16 [key_record KEY_HOME 1]] [None] (Some 1)) =
   Some Aborts"
  by (simp add: run_defs env_defs)

lemma run_press:
  "keys_get_event sample_ids 16 (Some 0) None initial_mem env_press_release =
     Some (Returns (NYX_ERROR_NONE, Some 1, mem_press, env_press))"
  by (simp add: run_defs env_defs env_press_release_def mem_press_def env_press_def)

lemma run_release:
  "keys_get_event sample_ids 16 (Some 0) None mem_press env_press =
     Some (Returns (NYX_ERROR_NONE, Some 2, mem_release, env_press\<lparr>callocs_done := 2\<rparr>))"
  by (simp add: run_defs env_defs env_press_release_def mem_press_def env_press_def
      mem_release_def fun_upd_twist)

text \<open>
  C2 as stated fails: two calls without a release in between each return a new event,
  and both events are live after the second call.
\<close>

theorem keys_get_event_two_live_counterexample:
  "keys_get_event sample_ids 16 (Some 0) None initial_mem env_press_release =
     Some (Returns (NYX_ERROR_NONE, Some 1, mem_press, env_press)) \<and>
   keys_get_event sample_ids 16 (Some 0) None mem_press env_press =
     Some (Returns (NYX_ERROR_NONE, Some 2, mem_release, env_press\<lparr>callocs_done := 2\<rparr>)) \<and>
   heap mem_release 1 \<noteq> None \<and> heap mem_release 2 \<noteq> None"
  using run_press run_release by (simp add: mem_release_def)

text \<open>
  C2 as the code has it.  A returning call of \<^verbatim>\<open>keys_get_event\<close> allocates at most
  one event, and allocates exactly when the device holds no event after the refill
  step; no other event becomes live.  An event it hands out is live and has left the
  device's slot, and the module keeps no record of it.  \<^verbatim>\<open>keys_release_event\<close> ends
  the life of the event it is given and of no other.
\<close>

theorem keys_get_event_allocates_once:
  assumes "keys_get_event ck sz (Some d) e s w = Some (Returns (r, e', s', w'))"
  shows "callocs_done w' \<le> callocs_done w + 1 \<and>
    (callocs_done w' = callocs_done w + 1 \<longleftrightarrow>
       event_iter s = 0 \<or> current_event_ptr s = None) \<and>
    dom (heap s') \<subseteq> dom (heap s) \<union> set_option (calloc_results w (callocs_done w)) \<and>
    (e' \<noteq> e \<longrightarrow> (\<exists>a. e' = Some a \<and> a \<in> dom (heap s') \<and> current_event_ptr s' = None)) \<and>
    dom (heap (snd (keys_release_event (Some d) e' s'))) = dom (heap s') - set_option e'"
proof -
  from keys_get_event_returns [OF assms] obtain s1 w1 s2 s3 where
    refill: "keys_refill sz s w = Some (s1, w1)" and
    hold: "keys_hold_event s1 w1 = Returns (s2, w')" and
    scan: "keys_scan ck s2 e = Returns (s3, e')" and
    s': "s' = (if event_count s3 \<le> event_iter s3 then s3\<lparr>event_iter := 0\<rparr> else s3)"
    by blast
  note k = keys_refill_keeps [OF refill]
  have h: "callocs_done w' = callocs_done w + (if current_event_ptr s1 = None then 1 else 0)"
    "dom (heap s2) \<subseteq> dom (heap s) \<union> set_option (calloc_results w (callocs_done w))"
    using hold k
    by (auto simp: keys_hold_event_def keys_event_create_def Let_def
        split: if_splits option.splits)
  have sc: "dom (heap s3) = dom (heap s2) \<and>
    (e' \<noteq> e \<longrightarrow> (\<exists>a. e' = Some a \<and> a \<in> dom (heap s3) \<and> current_event_ptr s3 = None))"
    using keys_scan_returns [OF scan]
  proof (elim disjE exE conjE)
    assume "e' = e" "s3 = s2\<lparr>event_iter := max (event_iter s2) (event_count s2)\<rparr>"
    then show ?thesis by simp
  next
    fix i a ev
    assume "current_event_ptr s2 = Some a" "heap s2 a = Some ev" "e' = Some a"
      "s3 = s2\<lparr>event_iter := i + 1,
         heap := (heap s2)(a \<mapsto> fill_event ck (raw_events s2 ! nat i) ev),
         current_event_ptr := None\<rparr>"
    then show ?thesis by (auto split: if_splits)
  qed
  have rel: "dom (heap (snd (keys_release_event (Some d) e' s'))) = dom (heap s') - set_option e'"
    by (cases e') (auto simp: keys_release_event_def)
  have same: "heap s' = heap s3" "current_event_ptr s' = current_event_ptr s3"
    using s' by auto
  have c1: "callocs_done w' \<le> callocs_done w + 1" using h(1) by simp
  have c2: "callocs_done w' = callocs_done w + 1 \<longleftrightarrow>
      event_iter s = 0 \<or> current_event_ptr s = None"
    using h(1) k by (auto split: if_splits)
  have c3: "dom (heap s') \<subseteq> dom (heap s) \<union> set_option (calloc_results w (callocs_done w))"
    using h(2) sc same by simp
  have c4: "e' \<noteq> e \<longrightarrow>
      (\<exists>a. e' = Some a \<and> a \<in> dom (heap s') \<and> current_event_ptr s' = None)"
    using sc same by metis
  from c1 c2 c3 c4 rel show ?thesis by blast
qed


theorem keys_get_event_allocates_once_witness:
  "keys_get_event sample_ids 16 (Some 0) None initial_mem env_press_release =
     Some (Returns (NYX_ERROR_NONE, Some 1, mem_press, env_press)) \<and>
   callocs_done env_press = callocs_done env_press_release + 1 \<and>
   event_iter initial_mem = 0 \<and>
   dom (heap mem_press) \<subseteq> dom (heap initial_mem) \<union> {1} \<and>
   1 \<in> dom (heap mem_press) \<and> current_event_ptr mem_press = None \<and>
   dom (heap (snd (keys_release_event (Some 0) (Some 1) mem_press))) = dom (heap mem_press) - {1}"
  using keys_get_event_allocates_once [OF run_press] run_press
  by (simp add: env_press_def env_press_release_def env_defs initial_mem_def)

section \<open>One call from a state between calls\<close>

lemma length_read_store: "length (read_store sz r buf) = length buf"
  by (auto simp: read_store_def store_records_def)

lemma filter_dropWhile: "filter P xs = filter P (dropWhile (\<lambda>x. \<not> P x) xs)"
  by (induction xs) simp_all

lemma dropWhile_head: "dropWhile (\<lambda>x. \<not> P x) xs = y # ys \<Longrightarrow> P y"
  using hd_dropWhile [of "\<lambda>x. \<not> P x" xs] by auto

lemma fill_event_fresh:
  "fill_event ck r (zeroed_event\<lparr>event_type := NYX_EVENT_KEYS\<rparr>) = translate ck r"
  by (simp add: fill_event_def translate_def zeroed_event_def)

lemma window_suffix:
  "0 \<le> event_iter s \<Longrightarrow> event_count s \<le> int (length (raw_events s)) \<Longrightarrow>
   window s = pre @ rest \<Longrightarrow>
   window (s\<lparr>event_iter := event_count s - int (length rest)\<rparr>) = rest"
proof (induction pre arbitrary: s)
  case Nil
  show ?case
  proof (cases "event_iter s \<le> event_count s")
    case True
    with Nil length_window [of s] have "event_count s - int (length rest) = event_iter s"
      by simp
    with Nil show ?thesis by simp
  next
    case False
    with Nil have "rest = []" by (simp add: window_def)
    then show ?thesis by (simp add: window_def)
  qed
next
  case (Cons x pre)
  have lt: "event_iter s < event_count s"
  proof (rule ccontr)
    assume "\<not> event_iter s < event_count s"
    then have "window s = []" by (simp add: window_empty)
    with Cons.prems(3) show False by simp
  qed
  let ?s1 = "s\<lparr>event_iter := event_iter s + 1\<rparr>"
  from window_Cons [OF Cons.prems(1) lt Cons.prems(2)] Cons.prems(3)
  have "window ?s1 = pre @ rest" by simp
  from Cons.IH [OF _ _ this] Cons.prems(1,2) show ?case by simp
qed

lemma records_read_same: "records_read sz w i i = []"
  by (simp add: records_read_def)

lemma records_read_retries:
  assumes "\<forall>i<k. \<not> read_ends (read_results w (n + i))"
  shows "records_read sz w n (n + k + 1) = batch_of sz (read_results w (n + k))"
proof -
  have "batch_of sz (read_results w j) = []" if "j \<in> set [n..<n + k]" for j
  proof -
    from that obtain i where "j = n + i" "i < k"
      by (metis add_diff_inverse_nat atLeastLessThan_iff nat_add_left_cancel_less
          not_less set_upt)
    with assms have "\<not> read_ends (read_results w j)" by simp
    then show ?thesis by (simp add: read_ends_def batch_of_def)
  qed
  then have "concat (map (\<lambda>j. batch_of sz (read_results w j)) [n..<n + k]) = []"
    by simp
  then show ?thesis by (simp add: records_read_def)
qed

lemma records_read_append:
  assumes "i \<le> j" "j \<le> k"
  shows "records_read sz w i j @ records_read sz w j k = records_read sz w i k"
proof -
  have "[i..<k] = [i..<j] @ [j..<k]"
    using upt_add_eq_append [OF assms(1), of "k - j"] assms(2) by simp
  then show ?thesis by (simp add: records_read_def)
qed

lemma store_full_batch:
  assumes "0 < sz" "0 < rd r" "read_wf sz (int (length buf)) r"
  shows "take (nat (rd r div sz)) (read_store sz r buf) = batch_of sz r"
    and "rd r div sz \<le> int (length buf)"
proof -
  from assms have len: "int (length (read_data r)) = rd r div sz"
    and le: "rd r \<le> sz * int (length buf)"
    by (simp_all add: read_wf_def)
  from le assms(1) have "rd r div sz \<le> (sz * int (length buf)) div sz"
    by (intro zdiv_mono1) simp_all
  with assms(1) show b: "rd r div sz \<le> int (length buf)" by simp
  from len have n: "nat (rd r div sz) = length (read_data r)" by simp
  from b n have "length (read_data r) \<le> length buf" by simp
  then show "take (nat (rd r div sz)) (read_store sz r buf) = batch_of sz r"
    using assms(2) by (simp add: read_store_def store_records_def batch_of_def n)
qed


lemma window_cong:
  "raw_events t = raw_events s \<Longrightarrow> event_count t = event_count s \<Longrightarrow>
   event_iter t = event_iter s \<Longrightarrow> window t = window s"
  by (simp add: window_def)

lemma keys_refill_step:
  assumes inv: "keys_inv s" and sz: "0 < sz"
    and retry: "\<forall>i<k. \<not> read_ends (read_results w (reads_done w + i))"
    and ends: "read_ends (read_results w (reads_done w + k))"
    and wf: "read_wf sz MAX_EVENTS (read_results w (reads_done w + k))"
  shows "\<exists>s1 w1. keys_refill sz s w = Some (s1, w1) \<and>
     int (length (raw_events s1)) = MAX_EVENTS \<and> 0 \<le> event_iter s1 \<and>
     event_count s1 \<le> MAX_EVENTS \<and>
     window s1 = pending s @ records_read sz w (reads_done w) (reads_done w1) \<and>
     reads_done w1 = reads_done w +
       (if event_iter s = 0 \<and> 0 < ret_val (poll_results w (polls_done w)) \<and>
           revents (poll_results w (polls_done w)) AND POLLIN \<noteq> 0 then k + 1 else 0)"
proof (cases "event_iter s = 0")
  case False
  with inv show ?thesis
    by (simp add: keys_refill_def keys_inv_def pending_def records_read_same)
next
  case True
  from inv have len: "int (length (raw_events s)) = MAX_EVENTS" by (simp add: keys_inv_def)
  have max: "0 \<le> MAX_EVENTS" by (simp add: MAX_EVENTS_def)
  show ?thesis
  proof (cases "0 < ret_val (poll_results w (polls_done w)) \<and>
      revents (poll_results w (polls_done w)) AND POLLIN \<noteq> 0")
    case False
    then have "read_input_event sz (Some (raw_events s)) MAX_EVENTS w =
        Some (0, Some (raw_events s), w\<lparr>polls_done := polls_done w + 1\<rparr>)"
      using read_input_event_not_ready [of w sz "raw_events s" MAX_EVENTS]
        read_input_event_no_pollin [of w sz "raw_events s" MAX_EVENTS]
      by (cases "ret_val (poll_results w (polls_done w)) \<le> 0") auto
    with True False len max show ?thesis
      by (simp add: keys_refill_def pending_def records_read_same window_def)
  next
    case ready: True
    let ?w1 = "w\<lparr>polls_done := polls_done w + 1\<rparr>"
    let ?r = "read_results w (reads_done w + k)"
    let ?n = "if 0 < rd ?r then rd ?r div sz else - 1"
    let ?s1 = "s\<lparr>event_count := ?n, raw_events := read_store sz ?r (raw_events s),
                 current_event_ptr := None\<rparr>"
    have loop: "read_loop sz MAX_EVENTS (raw_events s) 0 ?w1 =
        Some (?n, read_store sz ?r (raw_events s), ?w1\<lparr>reads_done := reads_done w + k + 1\<rparr>)"
      using read_loop_after [of k ?w1 sz MAX_EVENTS "raw_events s" 0] retry ends by simp
    have refill: "keys_refill sz s w = Some (?s1, ?w1\<lparr>reads_done := reads_done w + k + 1\<rparr>)"
      using True ready loop by (simp add: keys_refill_def read_input_event_reads)
    have rr: "records_read sz w (reads_done w) (reads_done w + k + 1) = batch_of sz ?r"
      using records_read_retries [OF retry] .
    from wf len have wf': "read_wf sz (int (length (raw_events s))) ?r" by simp
    have win: "window ?s1 = batch_of sz ?r" and cnt: "?n \<le> MAX_EVENTS"
    proof -
      show "window ?s1 = batch_of sz ?r"
      proof (cases "0 < rd ?r")
        case True
        with store_full_batch(1) [OF sz True wf'] show ?thesis
          using \<open>event_iter s = 0\<close> by (simp add: window_def)
      next
        case False
        then show ?thesis using \<open>event_iter s = 0\<close> by (simp add: window_def batch_of_def)
      qed
      show "?n \<le> MAX_EVENTS"
      proof (cases "0 < rd ?r")
        case True
        with store_full_batch(2) [OF sz True wf'] len show ?thesis by simp
      next
        case False
        with max show ?thesis by simp
      qed
    qed
    have "int (length (raw_events ?s1)) = MAX_EVENTS" using len by (simp add: length_read_store)
    moreover have "0 \<le> event_iter ?s1" using True by simp
    moreover have "event_count ?s1 \<le> MAX_EVENTS" using cnt by simp
    moreover have "window ?s1 = pending s @
        records_read sz w (reads_done w) (reads_done (?w1\<lparr>reads_done := reads_done w + k + 1\<rparr>))"
      using win rr True by (simp add: pending_def)
    moreover have "reads_done (?w1\<lparr>reads_done := reads_done w + k + 1\<rparr>) = reads_done w +
       (if event_iter s = 0 \<and> 0 < ret_val (poll_results w (polls_done w)) \<and>
           revents (poll_results w (polls_done w)) AND POLLIN \<noteq> 0 then k + 1 else 0)"
      using True ready by simp
    ultimately show ?thesis using refill by blast
  qed
qed


lemma keys_get_event_step:
  assumes inv: "keys_inv s" and sz: "0 < sz"
    and calloc: "calloc_results w (callocs_done w) = Some a"
    and retry: "\<forall>i<k. \<not> read_ends (read_results w (reads_done w + i))"
    and ends: "read_ends (read_results w (reads_done w + k))"
    and wf: "read_wf sz MAX_EVENTS (read_results w (reads_done w + k))"
  shows "\<exists>e' s' w' rs. keys_get_event ck sz (Some d) e s w =
       Some (Returns (NYX_ERROR_NONE, e', s', w')) \<and> keys_inv s' \<and>
     poll_results w' = poll_results w \<and> read_results w' = read_results w \<and>
     calloc_results w' = calloc_results w \<and> callocs_done w' = callocs_done w + 1 \<and>
     polls_done w' = polls_done w + (if event_iter s = 0 then 1 else 0) \<and>
     reads_done w' = reads_done w +
       (if event_iter s = 0 \<and> 0 < ret_val (poll_results w (polls_done w)) \<and>
           revents (poll_results w (polls_done w)) AND POLLIN \<noteq> 0 then k + 1 else 0) \<and>
     ((rs = [] \<and> e' = e \<and> pending s' = []) \<or>
      (\<exists>r. rs = [r] \<and> e' = Some a \<and> heap s' a = Some (translate ck r))) \<and>
     filter is_key (pending s @ records_read sz w (reads_done w) (reads_done w')) =
       rs @ filter is_key (pending s') \<and>
     (case dropWhile (\<lambda>r. \<not> is_key r)
             (pending s @ records_read sz w (reads_done w) (reads_done w')) of
        [] \<Rightarrow> e' = e \<and> pending s' = []
      | r # rest \<Rightarrow> e' = Some a \<and> heap s' a = Some (translate ck r) \<and> pending s' = rest)"
proof -
  from keys_refill_step [OF inv sz retry ends wf] obtain s1 w1 where
    refill: "keys_refill sz s w = Some (s1, w1)" and
    len: "int (length (raw_events s1)) = MAX_EVENTS" and
    it: "0 \<le> event_iter s1" and cnt: "event_count s1 \<le> MAX_EVENTS" and
    win: "window s1 = pending s @ records_read sz w (reads_done w) (reads_done w1)" and
    rds: "reads_done w1 = reads_done w +
       (if event_iter s = 0 \<and> 0 < ret_val (poll_results w (polls_done w)) \<and>
           revents (poll_results w (polls_done w)) AND POLLIN \<noteq> 0 then k + 1 else 0)"
    by blast
  note keep = keys_refill_keeps [OF refill]
  have empty: "current_event_ptr s1 = None"
    using keep inv by (auto simp: keys_inv_def)
  have c1: "calloc_results w1 (callocs_done w1) = Some a" using keep calloc by simp
  let ?fresh = "zeroed_event\<lparr>event_type := NYX_EVENT_KEYS\<rparr>"
  let ?s2 = "s1\<lparr>heap := (heap s1)(a \<mapsto> ?fresh), current_event_ptr := Some a\<rparr>"
  let ?w2 = "w1\<lparr>callocs_done := callocs_done w1 + 1\<rparr>"
  have hold: "keys_hold_event s1 w1 = Returns (?s2, ?w2)"
    using keys_hold_event_alloc [OF empty c1] .
  have w2: "window ?s2 = window s1" by (rule window_cong) simp_all
  have b: "0 \<le> event_iter ?s2" "event_count ?s2 \<le> int (length (raw_events ?s2))"
    "current_event_ptr ?s2 = Some a" "heap ?s2 a = Some ?fresh"
    using it cnt len by simp_all
  note res = keys_get_event_result [OF refill hold b, of ck d e, unfolded w2 fill_event_fresh]
  have envs: "poll_results ?w2 = poll_results w" "read_results ?w2 = read_results w"
    "calloc_results ?w2 = calloc_results w" "callocs_done ?w2 = callocs_done w + 1"
    "polls_done ?w2 = polls_done w + (if event_iter s = 0 then 1 else 0)"
    "reads_done ?w2 = reads_done w1"
    using keep by simp_all
  have fl: "filter is_key (window s1) =
      filter is_key (dropWhile (\<lambda>r. \<not> is_key r) (window s1))"
    by (rule filter_dropWhile)
  show ?thesis
  proof (cases "dropWhile (\<lambda>r. \<not> is_key r) (window s1)")
    case Nil
    let ?s' = "?s2\<lparr>event_iter := 0\<rparr>"
    have call: "keys_get_event ck sz (Some d) e s w =
        Some (Returns (NYX_ERROR_NONE, e, ?s', ?w2))"
      using res unfolding Nil by simp
    have i: "keys_inv ?s'" using len by (simp add: keys_inv_def)
    have f: "filter is_key (pending s @ records_read sz w (reads_done w) (reads_done ?w2)) =
        [] @ filter is_key (pending ?s')"
      using fl win unfolding Nil by (simp add: pending_def)
    have p: "pending ?s' = []" by (simp add: pending_def)
    have c: "case dropWhile (\<lambda>r. \<not> is_key r)
             (pending s @ records_read sz w (reads_done w) (reads_done ?w2)) of
        [] \<Rightarrow> e = e \<and> pending ?s' = []
      | r # rest \<Rightarrow> e = Some a \<and> heap ?s' a = Some (translate ck r) \<and> pending ?s' = rest"
      unfolding envs(6) win [symmetric] Nil using p by simp
    have r2: "reads_done ?w2 = reads_done w +
       (if event_iter s = 0 \<and> 0 < ret_val (poll_results w (polls_done w)) \<and>
           revents (poll_results w (polls_done w)) AND POLLIN \<noteq> 0 then k + 1 else 0)"
      using rds by simp
    have d: "([] = [] \<and> e = e \<and> pending ?s' = []) \<or>
      (\<exists>r. [] = [r] \<and> e = Some a \<and> heap ?s' a = Some (translate ck r))"
      using p by simp
    from call i envs(1-5) r2 d f c show ?thesis by blast
  next
    case (Cons r rest)
    let ?i = "if rest = [] then 0 else event_count s1 - int (length rest)"
    let ?s' = "?s2\<lparr>event_iter := ?i, heap := (heap ?s2)(a \<mapsto> translate ck r),
                  current_event_ptr := None\<rparr>"
    have call: "keys_get_event ck sz (Some d) e s w =
        Some (Returns (NYX_ERROR_NONE, Some a, ?s', ?w2))"
      using res unfolding Cons by simp
    have key: "is_key r" using dropWhile_head [OF Cons] .
    obtain pre where pre: "window s1 = pre @ r # rest"
      using Cons takeWhile_dropWhile_id [of "\<lambda>r. \<not> is_key r" "window s1"] by metis
    have lw: "length (window s1) = nat (event_count s1 - event_iter s1)"
      using length_window [of s1] it cnt len by simp
    have suffix: "window (s1\<lparr>event_iter := event_count s1 - int (length rest)\<rparr>) = rest"
      using window_suffix [of s1 "pre @ [r]" rest] it cnt len pre by simp
    have p: "pending ?s' = rest"
    proof (cases "rest = []")
      case True
      then show ?thesis by (simp add: pending_def)
    next
      case False
      from pre lw have "int (length rest) < event_count s1 - event_iter s1" by simp
      with it False have "event_count s1 - int (length rest) \<noteq> 0" by simp
      moreover have "window ?s' = window (s1\<lparr>event_iter := event_count s1 - int (length rest)\<rparr>)"
        using False by (intro window_cong) simp_all
      ultimately show ?thesis using False suffix by (simp add: pending_def)
    qed
    have i: "keys_inv ?s'"
    proof (cases "rest = []")
      case True
      then show ?thesis using len by (simp add: keys_inv_def)
    next
      case False
      from pre lw have "int (length rest) < event_count s1 - event_iter s1" by simp
      with it False cnt len show ?thesis by (simp add: keys_inv_def)
    qed
    have f: "filter is_key (pending s @ records_read sz w (reads_done w) (reads_done ?w2)) =
        [r] @ filter is_key (pending ?s')"
      using fl win key unfolding Cons p by simp
    have h: "heap ?s' a = Some (translate ck r)" by simp
    have c: "case dropWhile (\<lambda>r. \<not> is_key r)
             (pending s @ records_read sz w (reads_done w) (reads_done ?w2)) of
        [] \<Rightarrow> Some a = e \<and> pending ?s' = []
      | r # rest \<Rightarrow> Some a = Some a \<and> heap ?s' a = Some (translate ck r) \<and>
          pending ?s' = rest"
      unfolding envs(6) win [symmetric] Cons using p h by simp
    have r2: "reads_done ?w2 = reads_done w +
       (if event_iter s = 0 \<and> 0 < ret_val (poll_results w (polls_done w)) \<and>
           revents (poll_results w (polls_done w)) AND POLLIN \<noteq> 0 then k + 1 else 0)"
      using rds by simp
    have d: "([r] = [] \<and> Some a = e \<and> pending ?s' = []) \<or>
      (\<exists>x. [r] = [x] \<and> Some a = Some a \<and> heap ?s' a = Some (translate ck x))"
      using h by simp
    from call i envs(1-5) r2 d f c show ?thesis by blast
  qed
qed

section \<open>The result code and the output pointer\<close>

lemma keys_scan_untouched:
  "keys_scan ck s e0 = Returns (s', e0) \<Longrightarrow> e0 = None \<Longrightarrow>
   keys_scan ck s e = Returns (s', e)"
proof (induction ck s e0 rule: keys_scan.induct)
  case (1 ck s e0)
  show ?case
  proof (cases "event_iter s < event_count s")
    case False
    with "1.prems" show ?thesis by (simp add: keys_scan_done)
  next
    case True
    from "1.prems" True have inb: "0 \<le> event_iter s" "event_iter s < int (length (raw_events s))"
      by (subst (asm) keys_scan.simps, simp split: if_splits)+
    show ?thesis
    proof (cases "ev_type (raw_events s ! nat (event_iter s)) = EV_KEY")
      case key: True
      from "1.prems" True inb key have False
        by (subst (asm) keys_scan.simps)
          (auto simp: Let_def split: option.splits prod.splits)
      then show ?thesis ..
    next
      case other: False
      let ?s1 = "s\<lparr>event_iter := event_iter s + 1\<rparr>"
      have "keys_scan ck ?s1 e0 = Returns (s', e0)"
        using keys_scan_skip [OF True inb other, of ck e0] "1.prems" by simp
      from "1.IH" [OF True _ refl refl other this "1.prems"(2)] inb
      have "keys_scan ck ?s1 e = Returns (s', e)" by simp
      then show ?thesis using keys_scan_skip [OF True inb other, of ck e] by simp
    qed
  qed
qed

lemma keys_get_event_untouched:
  assumes "keys_get_event ck sz (Some d) None s w = Some (Returns (r, None, s', w'))"
  shows "keys_get_event ck sz (Some d) e s w = Some (Returns (NYX_ERROR_NONE, e, s', w'))"
proof -
  from keys_get_event_returns [OF assms] obtain s1 w1 s2 s3 where
    refill: "keys_refill sz s w = Some (s1, w1)" and
    hold: "keys_hold_event s1 w1 = Returns (s2, w')" and
    scan: "keys_scan ck s2 None = Returns (s3, None)" and
    s': "s' = (if event_count s3 \<le> event_iter s3 then s3\<lparr>event_iter := 0\<rparr> else s3)"
    by blast
  from keys_scan_untouched [OF scan refl] have "keys_scan ck s2 e = Returns (s3, e)" .
  with refill hold s' show ?thesis by (simp add: keys_get_event_def)
qed

lemma keys_get_event_total:
  assumes "keys_inv s" "0 < sz" "calloc_results w (callocs_done w) \<noteq> None"
    "\<forall>i<k. \<not> read_ends (read_results w (reads_done w + i))"
    "read_ends (read_results w (reads_done w + k))"
    "read_wf sz MAX_EVENTS (read_results w (reads_done w + k))"
  shows "\<exists>e' s' w'. keys_get_event ck sz (Some d) e s w =
       Some (Returns (NYX_ERROR_NONE, e', s', w')) \<and>
     polls_done w' = polls_done w + (if event_iter s = 0 then 1 else 0) \<and>
     reads_done w' = reads_done w +
       (if event_iter s = 0 \<and> 0 < ret_val (poll_results w (polls_done w)) \<and>
           revents (poll_results w (polls_done w)) AND POLLIN \<noteq> 0 then k + 1 else 0) \<and>
     (case filter is_key (pending s @ records_read sz w (reads_done w) (reads_done w')) of
        [] \<Rightarrow> e' = e
      | r # _ \<Rightarrow> \<exists>a. e' = Some a \<and> heap s' a = Some (translate ck r))"
proof -
  from assms(3) obtain a where a: "calloc_results w (callocs_done w) = Some a" by blast
  from keys_get_event_step [OF assms(1,2) a assms(4-6), of ck d e]
  obtain e' s' w' rs where
    call: "keys_get_event ck sz (Some d) e s w = Some (Returns (NYX_ERROR_NONE, e', s', w'))" and
    p: "polls_done w' = polls_done w + (if event_iter s = 0 then 1 else 0)" and
    r: "reads_done w' = reads_done w +
       (if event_iter s = 0 \<and> 0 < ret_val (poll_results w (polls_done w)) \<and>
           revents (poll_results w (polls_done w)) AND POLLIN \<noteq> 0 then k + 1 else 0)" and
    rs: "(rs = [] \<and> e' = e \<and> pending s' = []) \<or>
      (\<exists>r. rs = [r] \<and> e' = Some a \<and> heap s' a = Some (translate ck r))" and
    f: "filter is_key (pending s @ records_read sz w (reads_done w) (reads_done w')) =
       rs @ filter is_key (pending s')"
    by blast
  have "case filter is_key (pending s @ records_read sz w (reads_done w) (reads_done w')) of
        [] \<Rightarrow> e' = e
      | r # _ \<Rightarrow> \<exists>a. e' = Some a \<and> heap s' a = Some (translate ck r)"
    using rs unfolding f by auto
  with call p r show ?thesis by blast
qed


lemma keys_inv_initial: "keys_inv initial_mem"
  by (simp add: keys_inv_def initial_mem_def MAX_EVENTS_def)

text \<open>
  C9 as stated fails: with a device handle that is not null, the source not ready and
  \<^verbatim>\<open>calloc\<close> returning null, the call does not return \<^verbatim>\<open>NYX_ERROR_NONE\<close>; it aborts.
\<close>

theorem keys_get_event_error_none_counterexample:
  "keys_get_event sample_ids 16 (Some 0) None initial_mem (scripted_env [] [] [] None) =
     Some Aborts"
  by (simp add: run_defs env_defs)

text \<open>
  C9 as the code has it.  With a device handle that is not null, every call of
  \<^verbatim>\<open>keys_get_event\<close> that returns, returns \<^verbatim>\<open>NYX_ERROR_NONE\<close>.  A call that
  produces no event does not write \<^verbatim>\<open>*e\<close>: whatever the caller stored there is still
  there.  The call does return, from a state between calls, when \<^verbatim>\<open>calloc\<close> succeeds
  and the read loop meets a read that ends it, be it data or a failure.
\<close>

theorem keys_get_event_error_none:
  "(keys_get_event ck sz (Some d) e s w = Some (Returns (r, e', s', w')) \<longrightarrow>
      r = NYX_ERROR_NONE) \<and>
   (keys_get_event ck sz (Some d) None s w = Some (Returns (r, None, s', w')) \<longrightarrow>
      keys_get_event ck sz (Some d) e s w = Some (Returns (NYX_ERROR_NONE, e, s', w'))) \<and>
   (keys_inv s \<and> 0 < sz \<and> calloc_results w (callocs_done w) \<noteq> None \<and>
    (\<forall>i<k. \<not> read_ends (read_results w (reads_done w + i))) \<and>
    read_ends (read_results w (reads_done w + k)) \<and>
    read_wf sz MAX_EVENTS (read_results w (reads_done w + k)) \<longrightarrow>
      (\<exists>e' s' w'. keys_get_event ck sz (Some d) e s w =
         Some (Returns (NYX_ERROR_NONE, e', s', w'))))"
proof (intro conjI impI)
  assume "keys_get_event ck sz (Some d) e s w = Some (Returns (r, e', s', w'))"
  from keys_get_event_returns [OF this] show "r = NYX_ERROR_NONE" by blast
next
  assume "keys_get_event ck sz (Some d) None s w = Some (Returns (r, None, s', w'))"
  from keys_get_event_untouched [OF this]
  show "keys_get_event ck sz (Some d) e s w = Some (Returns (NYX_ERROR_NONE, e, s', w'))" .
next
  assume h: "keys_inv s \<and> 0 < sz \<and> calloc_results w (callocs_done w) \<noteq> None \<and>
    (\<forall>i<k. \<not> read_ends (read_results w (reads_done w + i))) \<and>
    read_ends (read_results w (reads_done w + k)) \<and>
    read_wf sz MAX_EVENTS (read_results w (reads_done w + k))"
  then have "keys_inv s" "0 < sz" "calloc_results w (callocs_done w) \<noteq> None"
    "\<forall>i<k. \<not> read_ends (read_results w (reads_done w + i))"
    "read_ends (read_results w (reads_done w + k))"
    "read_wf sz MAX_EVENTS (read_results w (reads_done w + k))"
    by simp_all
  from keys_get_event_total [OF this, of ck d e]
  show "\<exists>e' s' w'. keys_get_event ck sz (Some d) e s w =
         Some (Returns (NYX_ERROR_NONE, e', s', w'))"
    by blast
qed

lemma run_read_error:
  "keys_get_event sample_ids 16 (Some 0) None initial_mem env_read_error =
     Some (Returns (NYX_ERROR_NONE, None, mem_read_error,
       env_read_error\<lparr>polls_done := 1, reads_done := 1, callocs_done := 1\<rparr>))"
  by (simp add: run_defs env_defs env_read_error_def mem_read_error_def)

theorem keys_get_event_error_none_witness:
  "keys_get_event sample_ids 16 (Some 0) None initial_mem env_read_error =
     Some (Returns (NYX_ERROR_NONE, None, mem_read_error,
       env_read_error\<lparr>polls_done := 1, reads_done := 1, callocs_done := 1\<rparr>)) \<and>
   keys_get_event sample_ids 16 (Some 0) (Some 7) initial_mem env_read_error =
     Some (Returns (NYX_ERROR_NONE, Some 7, mem_read_error,
       env_read_error\<lparr>polls_done := 1, reads_done := 1, callocs_done := 1\<rparr>)) \<and>
   keys_inv initial_mem \<and> (0 :: int) < 16 \<and>
   calloc_results env_read_error (callocs_done env_read_error) \<noteq> None \<and>
   read_ends (read_results env_read_error (reads_done env_read_error + 0)) \<and>
   read_wf 16 MAX_EVENTS (read_results env_read_error (reads_done env_read_error + 0)) \<and>
   (\<exists>e' s' w'. keys_get_event sample_ids 16 (Some 0) (Some 7) initial_mem env_read_error =
      Some (Returns (NYX_ERROR_NONE, e', s', w')))"
proof -
  note t = keys_get_event_error_none [of sample_ids 16 0 "Some 7" initial_mem env_read_error
      NYX_ERROR_NONE None mem_read_error
      "env_read_error\<lparr>polls_done := 1, reads_done := 1, callocs_done := 1\<rparr>" 0]
  have h: "keys_inv initial_mem" "(0 :: int) < 16"
    "calloc_results env_read_error (callocs_done env_read_error) \<noteq> None"
    "\<forall>i<0. \<not> read_ends (read_results env_read_error (reads_done env_read_error + i))"
    "read_ends (read_results env_read_error (reads_done env_read_error + 0))"
    "read_wf 16 MAX_EVENTS (read_results env_read_error (reads_done env_read_error + 0))"
    by (simp_all add: keys_inv_initial env_read_error_def env_defs read_ends_def read_wf_def)
  from t run_read_error have
    u: "keys_get_event sample_ids 16 (Some 0) (Some 7) initial_mem env_read_error =
     Some (Returns (NYX_ERROR_NONE, Some 7, mem_read_error,
       env_read_error\<lparr>polls_done := 1, reads_done := 1, callocs_done := 1\<rparr>))"
    by blast
  from t h have
    v: "\<exists>e' s' w'. keys_get_event sample_ids 16 (Some 0) (Some 7) initial_mem env_read_error =
      Some (Returns (NYX_ERROR_NONE, e', s', w'))"
    by blast
  from run_read_error u h v show ?thesis by blast
qed


text \<open>
  C7.  A record whose type is not \<^verbatim>\<open>EV_KEY\<close> is passed over inside the loop: the scan
  goes on from the next record.  An event returned by \<^verbatim>\<open>keys_get_event\<close> was made
  from a key record.  From a state between calls the call returns
  \<^verbatim>\<open>NYX_ERROR_NONE\<close>; it returns no event only when no key record is left in the
  batch, and otherwise the event of the first key record left, whatever records of
  other types stand before it.
\<close>

theorem keys_get_event_skips_non_key:
  "(event_iter s < event_count s \<and> 0 \<le> event_iter s \<and>
    event_iter s < int (length (raw_events s)) \<and>
    ev_type (raw_events s ! nat (event_iter s)) \<noteq> EV_KEY \<longrightarrow>
      keys_scan ck s e = keys_scan ck (s\<lparr>event_iter := event_iter s + 1\<rparr>) e) \<and>
   (keys_get_event ck sz (Some d) None s w = Some (Returns (r, Some a, s', w')) \<longrightarrow>
      ev_type (last_record s') = EV_KEY) \<and>
   (keys_inv s \<and> 0 < sz \<and> calloc_results w (callocs_done w) \<noteq> None \<and>
    (\<forall>i<k. \<not> read_ends (read_results w (reads_done w + i))) \<and>
    read_ends (read_results w (reads_done w + k)) \<and>
    read_wf sz MAX_EVENTS (read_results w (reads_done w + k)) \<longrightarrow>
      (\<exists>e' t w1. keys_get_event ck sz (Some d) e s w =
           Some (Returns (NYX_ERROR_NONE, e', t, w1)) \<and>
         (case filter is_key (pending s @ records_read sz w (reads_done w) (reads_done w1)) of
            [] \<Rightarrow> e' = e
          | x # _ \<Rightarrow> \<exists>b. e' = Some b \<and> heap t b = Some (translate ck x))))"
proof (intro conjI impI)
  assume "event_iter s < event_count s \<and> 0 \<le> event_iter s \<and>
    event_iter s < int (length (raw_events s)) \<and>
    ev_type (raw_events s ! nat (event_iter s)) \<noteq> EV_KEY"
  then show "keys_scan ck s e = keys_scan ck (s\<lparr>event_iter := event_iter s + 1\<rparr>) e"
    using keys_scan_skip [of s ck e] by blast
next
  assume "keys_get_event ck sz (Some d) None s w = Some (Returns (r, Some a, s', w'))"
  from keys_get_event_event [OF this] show "ev_type (last_record s') = EV_KEY" by blast
next
  assume h: "keys_inv s \<and> 0 < sz \<and> calloc_results w (callocs_done w) \<noteq> None \<and>
    (\<forall>i<k. \<not> read_ends (read_results w (reads_done w + i))) \<and>
    read_ends (read_results w (reads_done w + k)) \<and>
    read_wf sz MAX_EVENTS (read_results w (reads_done w + k))"
  then have "keys_inv s" "0 < sz" "calloc_results w (callocs_done w) \<noteq> None"
    "\<forall>i<k. \<not> read_ends (read_results w (reads_done w + i))"
    "read_ends (read_results w (reads_done w + k))"
    "read_wf sz MAX_EVENTS (read_results w (reads_done w + k))"
    by simp_all
  from keys_get_event_total [OF this, of ck d e]
  show "\<exists>e' t w1. keys_get_event ck sz (Some d) e s w =
           Some (Returns (NYX_ERROR_NONE, e', t, w1)) \<and>
         (case filter is_key (pending s @ records_read sz w (reads_done w) (reads_done w1)) of
            [] \<Rightarrow> e' = e
          | x # _ \<Rightarrow> \<exists>b. e' = Some b \<and> heap t b = Some (translate ck x))"
    by blast
qed

lemma run_skip:
  "keys_get_event sample_ids 16 (Some 0) None initial_mem env_skip =
     Some (Returns (NYX_ERROR_NONE, Some 1, mem_skip,
       env_skip\<lparr>polls_done := 1, reads_done := 1, callocs_done := 1\<rparr>))"
  by (simp add: run_defs env_defs env_skip_def mem_skip_def)

theorem keys_get_event_skips_non_key_witness:
  "event_iter mem_skip < event_count mem_skip \<and> 0 \<le> event_iter mem_skip \<and>
   event_iter mem_skip < int (length (raw_events mem_skip)) \<and>
   ev_type (raw_events mem_skip ! nat (event_iter mem_skip)) \<noteq> EV_KEY \<and>
   keys_scan sample_ids mem_skip None =
     keys_scan sample_ids (mem_skip\<lparr>event_iter := event_iter mem_skip + 1\<rparr>) None \<and>
   keys_get_event sample_ids 16 (Some 0) None initial_mem env_skip =
     Some (Returns (NYX_ERROR_NONE, Some 1, mem_skip,
       env_skip\<lparr>polls_done := 1, reads_done := 1, callocs_done := 1\<rparr>)) \<and>
   ev_type (last_record mem_skip) = EV_KEY \<and>
   keys_inv initial_mem \<and> (0 :: int) < 16 \<and>
   calloc_results env_skip (callocs_done env_skip) \<noteq> None \<and>
   read_ends (read_results env_skip (reads_done env_skip + 0)) \<and>
   read_wf 16 MAX_EVENTS (read_results env_skip (reads_done env_skip + 0)) \<and>
   (\<exists>e' t w1. keys_get_event sample_ids 16 (Some 0) None initial_mem env_skip =
        Some (Returns (NYX_ERROR_NONE, e', t, w1)) \<and>
      (case filter is_key (pending initial_mem @
              records_read 16 env_skip (reads_done env_skip) (reads_done w1)) of
         [] \<Rightarrow> e' = None
       | x # _ \<Rightarrow> \<exists>b. e' = Some b \<and> heap t b = Some (translate sample_ids x)))"
proof -
  have g: "event_iter mem_skip < event_count mem_skip" "0 \<le> event_iter mem_skip"
    "event_iter mem_skip < int (length (raw_events mem_skip))"
    "ev_type (raw_events mem_skip ! nat (event_iter mem_skip)) \<noteq> EV_KEY"
    by (simp_all add: mem_skip_def other_record_def EV_KEY_def)
  have h: "keys_inv initial_mem" "(0 :: int) < 16"
    "calloc_results env_skip (callocs_done env_skip) \<noteq> None"
    "\<forall>i<0. \<not> read_ends (read_results env_skip (reads_done env_skip + i))"
    "read_ends (read_results env_skip (reads_done env_skip + 0))"
    "read_wf 16 MAX_EVENTS (read_results env_skip (reads_done env_skip + 0))"
    by (simp_all add: keys_inv_initial env_skip_def env_defs read_ends_def read_wf_def
        MAX_EVENTS_def)
  note t1 = keys_get_event_skips_non_key [where s = mem_skip and ck = sample_ids and e = None]
  note t2 = keys_get_event_skips_non_key [where s = initial_mem and ck = sample_ids
      and e = None and sz = 16 and d = 0 and w = env_skip and r = NYX_ERROR_NONE and a = 1
      and s' = mem_skip and k = 0
      and w' = "env_skip\<lparr>polls_done := 1, reads_done := 1, callocs_done := 1\<rparr>"]
  from t1 g have a: "keys_scan sample_ids mem_skip None =
     keys_scan sample_ids (mem_skip\<lparr>event_iter := event_iter mem_skip + 1\<rparr>) None"
    by blast
  from t2 run_skip have b: "ev_type (last_record mem_skip) = EV_KEY" by blast
  from t2 h have c: "\<exists>e' t w1. keys_get_event sample_ids 16 (Some 0) None initial_mem env_skip =
        Some (Returns (NYX_ERROR_NONE, e', t, w1)) \<and>
      (case filter is_key (pending initial_mem @
              records_read 16 env_skip (reads_done env_skip) (reads_done w1)) of
         [] \<Rightarrow> e' = None
       | x # _ \<Rightarrow> \<exists>b. e' = Some b \<and> heap t b = Some (translate sample_ids x))"
    by blast
  from g a run_skip b h c show ?thesis by blast
qed

section \<open>Polls and reads of one call\<close>

text \<open>
  A source that is ready and whose reads never end the loop, for instance one whose
  reads all return 0 bytes, keeps \<^verbatim>\<open>keys_get_event\<close> in the loop forever.
\<close>

lemma keys_get_event_spins:
  assumes "event_iter s = 0"
    and "0 < ret_val (poll_results w (polls_done w))"
    and "revents (poll_results w (polls_done w)) AND POLLIN \<noteq> 0"
    and "\<forall>i. \<not> read_ends (read_results w i)"
  shows "keys_get_event ck sz (Some d) e s w = None"
proof -
  have "read_loop sz MAX_EVENTS (raw_events s) 0 (w\<lparr>polls_done := polls_done w + 1\<rparr>) = None"
    using read_loop_never [of "w\<lparr>polls_done := polls_done w + 1\<rparr>"] assms(4) by simp
  with assms(1-3) have "keys_refill sz s w = None"
    by (simp add: keys_refill_def read_input_event_reads)
  then show ?thesis by (simp add: keys_get_event_def)
qed

text \<open>
  C4 as the code has it.  From a state between calls, when \<open>k\<close> reads interrupted by
  \<^verbatim>\<open>EINTR\<close> are followed by a read that ends the loop, the call ends.  When
  \<^verbatim>\<open>calloc\<close> succeeds it returns, having polled once if the cursor was at 0 and not
  at all otherwise, and having read \<open>k + 1\<close> times if it polled and the poll reported
  input, and not at all otherwise.
\<close>

theorem keys_get_event_terminates:
  assumes "keys_inv s" and "0 < sz"
    and "\<forall>i<k. read_interrupted (read_results w (reads_done w + i))"
    and "read_ends (read_results w (reads_done w + k))"
    and "read_wf sz MAX_EVENTS (read_results w (reads_done w + k))"
  shows "keys_get_event ck sz (Some d) e s w \<noteq> None \<and>
    (calloc_results w (callocs_done w) \<noteq> None \<longrightarrow>
      (\<exists>e' s' w'. keys_get_event ck sz (Some d) e s w =
           Some (Returns (NYX_ERROR_NONE, e', s', w')) \<and>
         polls_done w' = polls_done w + (if event_iter s = 0 then 1 else 0) \<and>
         reads_done w' = reads_done w +
           (if event_iter s = 0 \<and> 0 < ret_val (poll_results w (polls_done w)) \<and>
               revents (poll_results w (polls_done w)) AND POLLIN \<noteq> 0 then k + 1 else 0)))"
proof -
  have retry: "\<forall>i<k. \<not> read_ends (read_results w (reads_done w + i))"
    using assms(3) by (auto simp: read_interrupted_def read_ends_def)
  have ok: "\<exists>e' s' w'. keys_get_event ck sz (Some d) e s w =
           Some (Returns (NYX_ERROR_NONE, e', s', w')) \<and>
         polls_done w' = polls_done w + (if event_iter s = 0 then 1 else 0) \<and>
         reads_done w' = reads_done w +
           (if event_iter s = 0 \<and> 0 < ret_val (poll_results w (polls_done w)) \<and>
               revents (poll_results w (polls_done w)) AND POLLIN \<noteq> 0 then k + 1 else 0)"
    if "calloc_results w (callocs_done w) \<noteq> None"
    using keys_get_event_total [OF assms(1,2) that retry assms(4,5), of ck d e] by blast
  have "keys_get_event ck sz (Some d) e s w \<noteq> None"
  proof (cases "calloc_results w (callocs_done w)")
    case (Some a)
    with ok show ?thesis by auto
  next
    case None
    from keys_refill_step [OF assms(1,2) retry assms(4,5)] obtain s1 w1 where
      "keys_refill sz s w = Some (s1, w1)" by blast
    moreover from assms(1) have "event_iter s = 0 \<or> current_event_ptr s = None"
      by (auto simp: keys_inv_def)
    ultimately show ?thesis using keys_get_event_aborts(2) None by fastforce
  qed
  with ok show ?thesis by blast
qed

lemma run_interrupted:
  "keys_get_event sample_ids 16 (Some 0) None initial_mem env_interrupted =
     Some (Returns (NYX_ERROR_NONE, Some 1, mem_interrupted,
       env_interrupted\<lparr>polls_done := 1, reads_done := 2, callocs_done := 1\<rparr>))"
  by (simp add: run_defs env_defs env_interrupted_def mem_interrupted_def)

text \<open>
  C4 as stated fails: with one interrupted read before the data, a single call reads
  twice.
\<close>

theorem keys_get_event_terminates_counterexample:
  "reads_done env_interrupted = 0 \<and>
   keys_get_event sample_ids 16 (Some 0) None initial_mem env_interrupted =
     Some (Returns (NYX_ERROR_NONE, Some 1, mem_interrupted,
       env_interrupted\<lparr>polls_done := 1, reads_done := 2, callocs_done := 1\<rparr>))"
  using run_interrupted by (simp add: env_interrupted_def env_defs)

theorem keys_get_event_terminates_witness:
  "keys_inv initial_mem \<and> (0 :: int) < 16 \<and>
   read_interrupted (read_results env_interrupted (reads_done env_interrupted + 0)) \<and>
   read_ends (read_results env_interrupted (reads_done env_interrupted + 1)) \<and>
   read_wf 16 MAX_EVENTS (read_results env_interrupted (reads_done env_interrupted + 1)) \<and>
   keys_get_event sample_ids 16 (Some 0) None initial_mem env_interrupted \<noteq> None \<and>
   calloc_results env_interrupted (callocs_done env_interrupted) \<noteq> None \<and>
   (\<exists>e' s' w'. keys_get_event sample_ids 16 (Some 0) None initial_mem env_interrupted =
        Some (Returns (NYX_ERROR_NONE, e', s', w')) \<and>
      polls_done w' = polls_done env_interrupted + 1 \<and>
      reads_done w' = reads_done env_interrupted + 2)"
proof -
  have h: "keys_inv initial_mem" "(0 :: int) < 16"
    "\<forall>i<1. read_interrupted (read_results env_interrupted (reads_done env_interrupted + i))"
    "read_ends (read_results env_interrupted (reads_done env_interrupted + 1))"
    "read_wf 16 MAX_EVENTS (read_results env_interrupted (reads_done env_interrupted + 1))"
    by (simp_all add: keys_inv_initial env_interrupted_def env_defs read_ends_def read_wf_def
        read_interrupted_def MAX_EVENTS_def)
  have c: "calloc_results env_interrupted (callocs_done env_interrupted) \<noteq> None"
    "read_interrupted (read_results env_interrupted (reads_done env_interrupted + 0))"
    by (simp_all add: env_interrupted_def env_defs read_interrupted_def)
  have p: "event_iter initial_mem = 0 \<and>
      0 < ret_val (poll_results env_interrupted (polls_done env_interrupted)) \<and>
      revents (poll_results env_interrupted (polls_done env_interrupted)) AND POLLIN \<noteq> 0"
    by (simp add: initial_mem_def env_interrupted_def env_defs)
  from keys_get_event_terminates [OF h, of sample_ids 0 None] c p
  have "keys_get_event sample_ids 16 (Some 0) None initial_mem env_interrupted \<noteq> None"
    "\<exists>e' s' w'. keys_get_event sample_ids 16 (Some 0) None initial_mem env_interrupted =
        Some (Returns (NYX_ERROR_NONE, e', s', w')) \<and>
      polls_done w' = polls_done env_interrupted + 1 \<and>
      reads_done w' = reads_done env_interrupted + 2"
    by simp_all
  with h c show ?thesis by blast
qed

section \<open>The order of the events\<close>

lemma env_ok_next:
  assumes "env_ok sz w"
  shows "\<exists>a k. calloc_results w (callocs_done w) = Some a \<and>
    (\<forall>i<k. \<not> read_ends (read_results w (reads_done w + i))) \<and>
    read_ends (read_results w (reads_done w + k)) \<and>
    read_wf sz MAX_EVENTS (read_results w (reads_done w + k))"
proof -
  from assms have "calloc_results w (callocs_done w) \<noteq> None"
    by (simp add: env_ok_def)
  then obtain a where a: "calloc_results w (callocs_done w) = Some a" by blast
  from assms have "\<exists>j\<ge>reads_done w. read_ends (read_results w j)"
    by (simp add: env_ok_def)
  then obtain j where "reads_done w \<le> j" "read_ends (read_results w j)" by blast
  then have ex: "\<exists>k. read_ends (read_results w (reads_done w + k))"
    by (metis le_add_diff_inverse)
  define k where "k = (LEAST k. read_ends (read_results w (reads_done w + k)))"
  have e: "read_ends (read_results w (reads_done w + k))"
    unfolding k_def using ex by (rule LeastI_ex)
  have r: "\<forall>i<k. \<not> read_ends (read_results w (reads_done w + i))"
    unfolding k_def using not_less_Least by blast
  from assms have "read_wf sz MAX_EVENTS (read_results w (reads_done w + k))"
    by (simp add: env_ok_def)
  with a e r show ?thesis by blast
qed

lemma env_ok_cong:
  "read_results w' = read_results w \<Longrightarrow> calloc_results w' = calloc_results w \<Longrightarrow>
   env_ok sz w \<Longrightarrow> env_ok sz w'"
  by (simp add: env_ok_def)

lemma records_read_cong:
  "read_results w' = read_results w \<Longrightarrow> records_read sz w' i j = records_read sz w i j"
  by (simp add: records_read_def)

lemma release_keeps:
  "keys_inv (snd (keys_release_event d e s)) = keys_inv s"
  "pending (snd (keys_release_event d e s)) = pending s"
  by (auto simp: keys_release_event_def keys_inv_def pending_def window_def
      split: option.splits)

lemma pending_empty_iff:
  assumes "keys_inv s"
  shows "pending s = [] \<longleftrightarrow> event_iter s = 0"
proof (cases "event_iter s = 0")
  case True
  then show ?thesis by (simp add: pending_def)
next
  case False
  with assms have b: "0 < event_iter s" "event_iter s < event_count s"
    "event_count s \<le> int (length (raw_events s))"
    by (auto simp: keys_inv_def)
  then have "length (window s) = nat (event_count s - event_iter s)"
    using length_window [of s] by simp
  with b have "window s \<noteq> []" by auto
  with False show ?thesis by (simp add: pending_def)
qed

lemma fifo_trace_pending:
  "pending t = pending s \<Longrightarrow> fifo_trace ck sz t w tr = fifo_trace ck sz s w tr"
  by (cases tr) auto

lemma retries_list_all:
  assumes "\<forall>i<k. \<not> read_ends (read_results w (n + i))"
  shows "list_all (\<lambda>j. \<not> read_ends (read_results w j)) [n..<n + k]"
proof -
  have "\<not> read_ends (read_results w j)" if "j \<in> set [n..<n + k]" for j
  proof -
    from that have "n \<le> j" "j - n < k" by auto
    with assms have "\<not> read_ends (read_results w (n + (j - n)))" by blast
    with \<open>n \<le> j\<close> show ?thesis by simp
  qed
  then show ?thesis by (simp add: list_all_iff)
qed

lemma events_of_Cons:
  "events_of ((out, s, w) # tr) = (case out of None \<Rightarrow> [] | Some ev \<Rightarrow> [ev]) @ events_of tr"
  by (cases out) (simp_all add: events_of_def List.map_filter_simps)

text \<open>
  A trace that satisfies the specification's iterator shows progress: a call that
  finds no record left to inspect must poll, so it cannot leave the environment as it
  found it.
\<close>

lemma fifo_trace_polls:
  "pending s = [] \<Longrightarrow> \<not> fifo_trace ck sz s w ((out, s', w) # tr)"
  by simp

text \<open>
  C6.  Take any number of successive calls of \<^verbatim>\<open>keys_get_event\<close>, from a state
  between calls, the caller releasing the returned events or not, in an environment
  where \<^verbatim>\<open>calloc\<close> succeeds and every read loop meets a read that ends it.  The
  calls all return, one trace entry for each call, and the trace is that of the
  specification's iterator: each call refills exactly when nothing is left of the
  batch, polling once and reading up to the first read that ends the loop, and returns
  the event of the first key record at hand, or no event when there is none.  So the
  events returned, in the order of the calls, followed by the events of the key
  records still to be visited, are the events of the key records in the order the
  source delivered them, within a batch and from batch to batch: one event for each
  key record, none moved and none merged.
\<close>

theorem keys_run_fifo:
  assumes "keys_inv s" and "0 < sz" and "env_ok sz w"
  shows "\<exists>tr s' w'. keys_run ck sz rels s w = Some (Returns (tr, s', w')) \<and>
    length tr = length rels \<and> fifo_trace ck sz s w tr \<and>
    reads_done w \<le> reads_done w' \<and>
    map (translate ck)
      (filter is_key (pending s @ records_read sz w (reads_done w) (reads_done w'))) =
    events_of tr @ map (translate ck) (filter is_key (pending s'))"
  using assms
proof (induction rels arbitrary: s w)
  case Nil
  then show ?case by (simp add: records_read_same events_of_def List.map_filter_simps)
next
  case (Cons release rest)
  let ?ready = "0 < ret_val (poll_results w (polls_done w)) \<and>
    revents (poll_results w (polls_done w)) AND POLLIN \<noteq> 0"
  let ?skip = "dropWhile (\<lambda>r. \<not> is_key r)"
  from env_ok_next [OF Cons.prems(3)] obtain a k where
    a: "calloc_results w (callocs_done w) = Some a" and
    r: "\<forall>i<k. \<not> read_ends (read_results w (reads_done w + i))" and
    e: "read_ends (read_results w (reads_done w + k))" and
    wf: "read_wf sz MAX_EVENTS (read_results w (reads_done w + k))"
    by blast
  from keys_get_event_step [OF Cons.prems(1,2) a r e wf, of ck 0 None]
  obtain e' s1 w1 rs where
    call: "keys_get_event ck sz (Some 0) None s w = Some (Returns (NYX_ERROR_NONE, e', s1, w1))" and
    inv1: "keys_inv s1" and
    env: "read_results w1 = read_results w" "calloc_results w1 = calloc_results w" and
    pd: "polls_done w1 = polls_done w + (if event_iter s = 0 then 1 else 0)" and
    rdeq: "reads_done w1 = reads_done w + (if event_iter s = 0 \<and> ?ready then k + 1 else 0)" and
    rs: "(rs = [] \<and> e' = None \<and> pending s1 = []) \<or>
      (\<exists>x. rs = [x] \<and> e' = Some a \<and> heap s1 a = Some (translate ck x))" and
    f: "filter is_key (pending s @ records_read sz w (reads_done w) (reads_done w1)) =
       rs @ filter is_key (pending s1)" and
    c: "case ?skip (pending s @ records_read sz w (reads_done w) (reads_done w1)) of
        [] \<Rightarrow> e' = None \<and> pending s1 = []
      | x # xs \<Rightarrow> e' = Some a \<and> heap s1 a = Some (translate ck x) \<and> pending s1 = xs"
    by blast
  from rdeq have rd: "reads_done w \<le> reads_done w1" by simp
  let ?got = "case e' of None \<Rightarrow> None | Some b \<Rightarrow> heap s1 b"
  let ?s2 = "if release \<and> e' \<noteq> None then snd (keys_release_event (Some 0) e' s1) else s1"
  have got: "(case ?got of None \<Rightarrow> [] | Some ev \<Rightarrow> [ev]) = map (translate ck) rs"
    using rs by auto
  have gotc: "case ?skip (pending s @ records_read sz w (reads_done w) (reads_done w1)) of
        [] \<Rightarrow> ?got = None \<and> pending s1 = []
      | x # xs \<Rightarrow> ?got = Some (translate ck x) \<and> pending s1 = xs"
  proof (cases "?skip (pending s @ records_read sz w (reads_done w) (reads_done w1))")
    case Nil
    from c [unfolded Nil] show ?thesis unfolding Nil by simp
  next
    case (Cons x xs)
    from c [unfolded Cons] show ?thesis unfolding Cons by simp
  qed
  have it: "pending s = [] \<longleftrightarrow> event_iter s = 0"
    using pending_empty_iff [OF Cons.prems(1)] .
  have polls: "polls_done w1 = polls_done w + (if pending s = [] then 1 else 0)"
    using pd it by simp
  have reads: "if pending s = [] \<and> ?ready
      then reads_done w < reads_done w1 \<and>
        read_ends (read_results w (reads_done w1 - 1)) \<and>
        list_all (\<lambda>j. \<not> read_ends (read_results w j)) [reads_done w..<reads_done w1 - 1]
      else reads_done w1 = reads_done w"
    using rdeq it e retries_list_all [OF r] by simp
  have inv2: "keys_inv ?s2" and p2: "pending ?s2 = pending s1"
    using inv1 by (simp_all add: release_keeps)
  from Cons.IH [OF inv2 Cons.prems(2) env_ok_cong [OF env Cons.prems(3)]]
  obtain tr s3 w3 where
    run: "keys_run ck sz rest ?s2 w1 = Some (Returns (tr, s3, w3))" and
    len: "length tr = length rest" and
    ft: "fifo_trace ck sz ?s2 w1 tr" and
    rd3: "reads_done w1 \<le> reads_done w3" and
    f3: "map (translate ck)
      (filter is_key (pending ?s2 @ records_read sz w1 (reads_done w1) (reads_done w3))) =
      events_of tr @ map (translate ck) (filter is_key (pending s3))"
    by blast
  let ?tr = "(?got, s1, w1) # tr"
  have whole: "keys_run ck sz (release # rest) s w = Some (Returns (?tr, s3, w3))"
    using call run by (simp add: Let_def)
  have ft1: "fifo_trace ck sz s1 w1 tr"
    using ft fifo_trace_pending [OF p2] by simp
  have trace: "fifo_trace ck sz s w ?tr"
    using polls reads gotc ft1 by simp
  have split: "records_read sz w (reads_done w) (reads_done w3) =
      records_read sz w (reads_done w) (reads_done w1) @
      records_read sz w (reads_done w1) (reads_done w3)"
    using records_read_append [OF rd rd3] by simp
  have "map (translate ck)
      (filter is_key (pending s @ records_read sz w (reads_done w) (reads_done w3))) =
      map (translate ck)
        (filter is_key (pending s @ records_read sz w (reads_done w) (reads_done w1))) @
      map (translate ck) (filter is_key (records_read sz w (reads_done w1) (reads_done w3)))"
    unfolding split by simp
  also have "\<dots> = map (translate ck) rs @ map (translate ck)
      (filter is_key (pending s1 @ records_read sz w (reads_done w1) (reads_done w3)))"
    unfolding f by simp
  also have "\<dots> = map (translate ck) rs @ events_of tr @
      map (translate ck) (filter is_key (pending s3))"
    using f3 unfolding p2 records_read_cong [OF env(1)] by simp
  finally have order: "map (translate ck)
      (filter is_key (pending s @ records_read sz w (reads_done w) (reads_done w3))) =
      events_of ?tr @ map (translate ck) (filter is_key (pending s3))"
    unfolding events_of_Cons got by simp
  have l: "length ?tr = length (release # rest)" using len by simp
  have rdw: "reads_done w \<le> reads_done w3" using rd rd3 by simp
  from whole l trace rdw order show ?case by blast
qed


lemma script_default: "length xs \<le> i \<Longrightarrow> script d xs i = d"
proof (induction xs arbitrary: i)
  case Nil
  show ?case by simp
next
  case (Cons x xs)
  then show ?case by (cases i) simp_all
qed

lemma script_all: "P d \<Longrightarrow> \<forall>x\<in>set xs. P x \<Longrightarrow> P (script d xs i)"
proof (induction xs arbitrary: i)
  case Nil
  then show ?case by simp
next
  case (Cons x xs)
  then show ?case by (cases i) simp_all
qed

lemma env_ok_scripted:
  assumes "0 < sz" "\<forall>r\<in>set rs. read_wf sz MAX_EVENTS r" "\<forall>c\<in>set cs. c \<noteq> None"
  shows "env_ok sz (scripted_env ps rs cs (Some c))"
proof -
  have a: "calloc_results (scripted_env ps rs cs (Some c)) i \<noteq> None" for i
    using script_all [of "\<lambda>c. c \<noteq> None" "Some c" cs i] assms(3)
    by (simp add: scripted_env_def)
  have wf: "read_wf sz MAX_EVENTS (read_fails EIO)"
    by (simp add: read_wf_def read_fails_def)
  have b: "read_wf sz MAX_EVENTS (read_results (scripted_env ps rs cs (Some c)) i)" for i
    using script_all [of "read_wf sz MAX_EVENTS" "read_fails EIO" rs i] assms(2) wf
    by (simp add: scripted_env_def)
  have e: "read_ends (read_fails EIO)"
    by (simp add: read_ends_def read_fails_def EIO_def EINTR_def)
  have c: "\<exists>j\<ge>i. read_ends (read_results (scripted_env ps rs cs (Some c)) j)" for i
  proof (intro exI [of _ "i + length rs"] conjI)
    show "i \<le> i + length rs" by simp
    show "read_ends (read_results (scripted_env ps rs cs (Some c)) (i + length rs))"
      using e by (simp add: scripted_env_def script_default)
  qed
  from a b c show ?thesis by (simp add: env_ok_def)
qed

text \<open>
  Three calls on two batches, the first batch starting with a record of another type:
  the press, then the release, then no event.
\<close>

lemma run_fifo:
  "keys_run sample_ids 16 [False, False, True] initial_mem env_fifo =
     Some (Returns (trace_fifo, mem_fifo3, env_fifo_after 3 2 3))"
  by (simp add: run_defs env_defs env_fifo_def keys_release_event_def trace_fifo_def
      mem_fifo1_def mem_fifo2_def mem_fifo3_def env_fifo_after_def fun_upd_twist)

theorem keys_run_fifo_witness:
  "keys_inv initial_mem \<and> (0 :: int) < 16 \<and> env_ok 16 env_fifo \<and>
   keys_run sample_ids 16 [False, False, True] initial_mem env_fifo =
     Some (Returns (trace_fifo, mem_fifo3, env_fifo_after 3 2 3)) \<and>
   length trace_fifo = length [False, False, True] \<and>
   fifo_trace sample_ids 16 initial_mem env_fifo trace_fifo \<and>
   reads_done env_fifo \<le> reads_done (env_fifo_after 3 2 3) \<and>
   map (translate sample_ids)
     (filter is_key (pending initial_mem @
        records_read 16 env_fifo (reads_done env_fifo) (reads_done (env_fifo_after 3 2 3)))) =
   events_of trace_fifo @ map (translate sample_ids) (filter is_key (pending mem_fifo3)) \<and>
   events_of trace_fifo =
     [translate sample_ids (key_record 30 1), translate sample_ids (key_record 30 0)]"
proof -
  have ok: "env_ok 16 env_fifo"
    unfolding env_fifo_def
    by (rule env_ok_scripted) (simp_all add: read_wf_def read_records_def MAX_EVENTS_def)
  have sz: "(0 :: int) < 16" by simp
  from keys_run_fifo [OF keys_inv_initial sz ok, of sample_ids "[False, False, True]"]
  obtain tr s' w' where
    "keys_run sample_ids 16 [False, False, True] initial_mem env_fifo =
       Some (Returns (tr, s', w'))"
    "length tr = length [False, False, True]"
    "fifo_trace sample_ids 16 initial_mem env_fifo tr"
    "reads_done env_fifo \<le> reads_done w'"
    "map (translate sample_ids)
       (filter is_key (pending initial_mem @
          records_read 16 env_fifo (reads_done env_fifo) (reads_done w'))) =
     events_of tr @ map (translate sample_ids) (filter is_key (pending s'))"
    by blast
  with run_fifo have t:
    "length trace_fifo = length [False, False, True]"
    "fifo_trace sample_ids 16 initial_mem env_fifo trace_fifo"
    "reads_done env_fifo \<le> reads_done (env_fifo_after 3 2 3)"
    "map (translate sample_ids)
       (filter is_key (pending initial_mem @
          records_read 16 env_fifo (reads_done env_fifo) (reads_done (env_fifo_after 3 2 3)))) =
     events_of trace_fifo @ map (translate sample_ids) (filter is_key (pending mem_fifo3))"
    by simp_all
  have ev: "events_of trace_fifo =
     [translate sample_ids (key_record 30 1), translate sample_ids (key_record 30 0)]"
    by (simp add: events_of_def trace_fifo_def List.map_filter_simps)
  from keys_inv_initial sz ok run_fifo t ev show ?thesis by blast
qed

end
